theory Spec2Isabelle
  imports Complex_Main "HOL-Library.Multiset" "HOL-Library.Sublist"
begin

section \<open>JavaScript numbers\<close>

text \<open>
  Every number of \<^verbatim>\<open>solution.js\<close> is a JavaScript Number. The model keeps the three
  special values the program can reach (the default threshold \<^verbatim>\<open>Infinity\<close>, a division
  by zero, \<^verbatim>\<open>NaN\<close>) and takes the finite values as exact rationals: rounding and
  overflow of the 64-bit format are not modelled, and the two zeros are one value
  (a negative zero could only be told apart as a divisor, that is as a weight).
\<close>

datatype jsnum = Fin rat | PInf | NInf | NaN

text \<open>The operator \<^verbatim>\<open>/\<close>.\<close>

fun js_div :: "jsnum \<Rightarrow> jsnum \<Rightarrow> jsnum" where
  "js_div NaN _ = NaN"
| "js_div _ NaN = NaN"
| "js_div (Fin a) (Fin b) =
     (if b \<noteq> 0 then Fin (a / b)
      else if 0 < a then PInf else if a < 0 then NInf else NaN)"
| "js_div (Fin a) PInf = Fin 0"
| "js_div (Fin a) NInf = Fin 0"
| "js_div PInf (Fin b) = (if 0 \<le> b then PInf else NInf)"
| "js_div NInf (Fin b) = (if 0 \<le> b then NInf else PInf)"
| "js_div PInf PInf = NaN"
| "js_div PInf NInf = NaN"
| "js_div NInf PInf = NaN"
| "js_div NInf NInf = NaN"

text \<open>The operator \<^verbatim>\<open>+\<close> on numbers.\<close>

fun js_add :: "jsnum \<Rightarrow> jsnum \<Rightarrow> jsnum" where
  "js_add NaN _ = NaN"
| "js_add _ NaN = NaN"
| "js_add (Fin a) (Fin b) = Fin (a + b)"
| "js_add PInf NInf = NaN"
| "js_add NInf PInf = NaN"
| "js_add PInf _ = PInf"
| "js_add _ PInf = PInf"
| "js_add NInf _ = NInf"
| "js_add _ NInf = NInf"

text \<open>The operator \<^verbatim>\<open>-\<close>.\<close>

fun js_sub :: "jsnum \<Rightarrow> jsnum \<Rightarrow> jsnum" where
  "js_sub NaN _ = NaN"
| "js_sub _ NaN = NaN"
| "js_sub (Fin a) (Fin b) = Fin (a - b)"
| "js_sub PInf PInf = NaN"
| "js_sub NInf NInf = NaN"
| "js_sub PInf _ = PInf"
| "js_sub _ PInf = NInf"
| "js_sub NInf _ = NInf"
| "js_sub _ NInf = PInf"

text \<open>The comparison \<^verbatim>\<open><=\<close>: false whenever an operand is \<^verbatim>\<open>NaN\<close>.\<close>

fun js_le :: "jsnum \<Rightarrow> jsnum \<Rightarrow> bool" where
  "js_le NaN _ = False"
| "js_le _ NaN = False"
| "js_le (Fin a) (Fin b) = (a \<le> b)"
| "js_le NInf _ = True"
| "js_le _ PInf = True"
| "js_le PInf _ = False"
| "js_le _ NInf = False"

text \<open>Truthiness of a number, and \<^verbatim>\<open>a || b\<close>: the zero and \<^verbatim>\<open>NaN\<close> are falsy.\<close>

fun truthy :: "jsnum \<Rightarrow> bool" where
  "truthy (Fin a) = (a \<noteq> 0)"
| "truthy PInf = True"
| "truthy NInf = True"
| "truthy NaN = False"

definition js_or :: "jsnum \<Rightarrow> jsnum \<Rightarrow> jsnum" where
  "js_or a b = (if truthy a then a else b)"

section \<open>Arrays: \<^verbatim>\<open>Array.prototype.sort\<close> with a comparison function\<close>

text \<open>
  \<^verbatim>\<open>sort\<close> places \<open>a\<close> after \<open>b\<close> exactly when the comparison function returns a
  value greater than zero for \<open>(a, b)\<close>; a result of zero or \<^verbatim>\<open>NaN\<close> leaves the two in
  the order they had (the sort is stable, as ECMAScript 2019 and later require). For
  a consistent comparison function the stable sorted order is unique; the model
  computes it by insertion, front to back.
\<close>

fun js_positive :: "jsnum \<Rightarrow> bool" where
  "js_positive (Fin a) = (0 < a)"
| "js_positive PInf = True"
| "js_positive NInf = False"
| "js_positive NaN = False"

fun sort_insert :: "('a \<Rightarrow> 'a \<Rightarrow> jsnum) \<Rightarrow> 'a \<Rightarrow> 'a list \<Rightarrow> 'a list" where
  "sort_insert cmp x [] = [x]"
| "sort_insert cmp x (y # ys) =
     (if js_positive (cmp x y) then y # sort_insert cmp x ys else x # y # ys)"

fun array_sort :: "('a \<Rightarrow> 'a \<Rightarrow> jsnum) \<Rightarrow> 'a list \<Rightarrow> 'a list" where
  "array_sort cmp [] = []"
| "array_sort cmp (x # xs) = sort_insert cmp x (array_sort cmp xs)"

section \<open>The program\<close>

text \<open>
  An item is the array \<^verbatim>\<open>[weight, benefit]\<close>; an annotated item is
  \<^verbatim>\<open>[ratio, weight, benefit]\<close>; a scored combination is
  \<^verbatim>\<open>[totalRatio, totalWeight, ...members]\<close>. The tuples keep the slots in the
  order of the arrays.
\<close>

type_synonym item = "jsnum \<times> jsnum"
type_synonym annotated = "jsnum \<times> jsnum \<times> jsnum"
type_synonym scored = "jsnum \<times> jsnum \<times> annotated list"

text \<open>
  The only exception the program can raise is the \<^verbatim>\<open>TypeError\<close> of reading
  \<^verbatim>\<open>.slice\<close> of \<^verbatim>\<open>undefined\<close> (line 50). \<open>InvalidItem\<close> and \<open>NoFeasibleSolution\<close> are
  the failures the specification names; the code has no statement that raises them.
\<close>

datatype error = TypeError | InvalidItem | NoFeasibleSolution

text \<open>\<^verbatim>\<open>calculateBenefit\<close>: \<^verbatim>\<open>[item[1] / item[0], ...item]\<close>.\<close>

fun calculateBenefit :: "item \<Rightarrow> annotated" where
  "calculateBenefit (weight, benefit) = (js_div benefit weight, weight, benefit)"

text \<open>\<^verbatim>\<open>sortByBenefit\<close>: \<^verbatim>\<open>right[0] - left[0] || right[1] - left[1]\<close>.\<close>

fun sortByBenefit :: "annotated \<Rightarrow> annotated \<Rightarrow> jsnum" where
  "sortByBenefit (l0, l1, l2) (r0, r1, r2) = js_or (js_sub r0 l0) (js_sub r1 l1)"

text \<open>
  \<^verbatim>\<open>sortedCombinations\<close>: the inner \<^verbatim>\<open>permute\<close> pushes onto the shared array
  \<^verbatim>\<open>result\<close>, which the model passes through the two recursive calls in the order the
  code makes them (include first, then exclude).
\<close>

fun permute :: "'a list \<Rightarrow> 'a list \<Rightarrow> 'a list list \<Rightarrow> 'a list list" where
  "permute left [] result = result @ [left]"
| "permute left (r # right) result =
     permute left right (permute (left @ [r]) right result)"

definition sortedCombinations :: "'a list \<Rightarrow> 'a list list" where
  "sortedCombinations items = permute [] items []"

text \<open>\<^verbatim>\<open>calculateTotalBenefit\<close>: two \<^verbatim>\<open>reduce\<close> calls from 0, then the members.\<close>

definition calculateTotalBenefit :: "annotated list \<Rightarrow> scored" where
  "calculateTotalBenefit item =
     (foldl (\<lambda>total current. js_add total (fst current)) (Fin 0) item,
      foldl (\<lambda>total current. js_add total (fst (snd current))) (Fin 0) item,
      item)"

text \<open>
  \<^verbatim>\<open>filterByWeight\<close>: the default parameter makes an omitted (\<^verbatim>\<open>undefined\<close>)
  threshold \<^verbatim>\<open>Infinity\<close>; \<open>None\<close> is the omitted argument.
\<close>

definition filterByWeight :: "jsnum option \<Rightarrow> scored \<Rightarrow> bool" where
  "filterByWeight threshold =
     (\<lambda>item. js_le (fst (snd item)) (case threshold of None \<Rightarrow> PInf | Some t \<Rightarrow> t))"

text \<open>\<^verbatim>\<open>sortByTotalBenefit\<close>: \<^verbatim>\<open>right[0] - left[0]\<close>.\<close>

definition sortByTotalBenefit :: "scored \<Rightarrow> scored \<Rightarrow> jsnum" where
  "sortByTotalBenefit left right = js_sub (fst right) (fst left)"

text \<open>
  \<^verbatim>\<open>knapsack\<close>, line by line. \<open>ranked\<close> is the argument of \<^verbatim>\<open>sortedCombinations\<close> on
  line 48 and \<open>candidates\<close> the array that line 49 sorts. \<^verbatim>\<open>results[0]\<close> of an empty
  array is \<^verbatim>\<open>undefined\<close>, and \<^verbatim>\<open>undefined.slice(2)\<close> throws a \<^verbatim>\<open>TypeError\<close>.
\<close>

definition ranked :: "item list \<Rightarrow> annotated list" where
  "ranked items = array_sort sortByBenefit (map calculateBenefit items)"

definition knapsack_combinations :: "item list \<Rightarrow> annotated list list" where
  "knapsack_combinations items = sortedCombinations (ranked items)"

definition candidates :: "item list \<Rightarrow> jsnum option \<Rightarrow> scored list" where
  "candidates items maximumWeight =
     filter (filterByWeight maximumWeight)
       (map calculateTotalBenefit (knapsack_combinations items))"

definition knapsack_results :: "item list \<Rightarrow> jsnum option \<Rightarrow> scored list" where
  "knapsack_results items maximumWeight =
     array_sort sortByTotalBenefit (candidates items maximumWeight)"

definition knapsack :: "item list \<Rightarrow> jsnum option \<Rightarrow> error + item list" where
  "knapsack items maximumWeight =
     (case knapsack_results items maximumWeight of
        [] \<Rightarrow> Inl TypeError
      | r # _ \<Rightarrow> Inr (map (\<lambda>item. snd item) (snd (snd r))))"

section \<open>The program over a store of arrays\<close>

text \<open>
  The functional model above cannot change its argument, so whether the program
  mutates the caller's arrays is decided on a second model, in which every array
  lives in a store. An array is a list of values; a value is a number, a reference
  to an array, or \<^verbatim>\<open>undefined\<close>. The store is the list of all arrays allocated so
  far: the address of an array is its position, and allocation appends, so a new
  array never shares its address with an old one. Each function takes the store and
  returns the store it leaves.
\<close>

datatype val = Num jsnum | Ref nat | Undefined

type_synonym heap = "val list list"

definition alloc :: "val list \<Rightarrow> heap \<Rightarrow> nat \<times> heap" where
  "alloc a h = (length h, h @ [a])"

text \<open>
  Reading through a value and reading a slot. On the caller's input (an array of
  arrays of two numbers) every value the program reads through is a reference to an
  array, and every slot it computes with holds a number; elsewhere the model reads
  no elements and \<^verbatim>\<open>NaN\<close>.
\<close>

fun deref :: "heap \<Rightarrow> val \<Rightarrow> val list" where
  "deref h (Ref r) = (if r < length h then h ! r else [])"
| "deref h _ = []"

definition slot :: "val list \<Rightarrow> nat \<Rightarrow> val" where
  "slot a i = (if i < length a then a ! i else Undefined)"

fun to_num :: "val \<Rightarrow> jsnum" where
  "to_num (Num n) = n"
| "to_num _ = NaN"

text \<open>
  \<^verbatim>\<open>Array.prototype.map\<close>: the length is read once, element \<open>k\<close> is read from the store
  as it is when the callback is called for it, and the results go to a new array.
\<close>

fun map_loop :: "(val \<Rightarrow> heap \<Rightarrow> val \<times> heap) \<Rightarrow> val \<Rightarrow> nat list \<Rightarrow> heap \<Rightarrow> val list \<times> heap" where
  "map_loop f arr [] h = ([], h)"
| "map_loop f arr (k # ks) h =
     (let (y, h1) = f (slot (deref h arr) k) h;
          (ys, h2) = map_loop f arr ks h1
      in (y # ys, h2))"

definition array_map_h :: "(val \<Rightarrow> heap \<Rightarrow> val \<times> heap) \<Rightarrow> val \<Rightarrow> heap \<Rightarrow> val \<times> heap" where
  "array_map_h f arr h =
     (let (ys, h1) = map_loop f arr [0..<length (deref h arr)] h;
          (r, h2) = alloc ys h1
      in (Ref r, h2))"

text \<open>\<^verbatim>\<open>Array.prototype.sort\<close> sorts in place and returns the same array.\<close>

fun array_sort_h :: "(heap \<Rightarrow> val \<Rightarrow> val \<Rightarrow> jsnum) \<Rightarrow> val \<Rightarrow> heap \<Rightarrow> val \<times> heap" where
  "array_sort_h cmp (Ref r) h = (Ref r, h[r := array_sort (cmp h) (deref h (Ref r))])"
| "array_sort_h cmp v h = (v, h)"

text \<open>\<^verbatim>\<open>filter\<close> and \<^verbatim>\<open>slice\<close> return new arrays.\<close>

definition array_filter_h :: "(heap \<Rightarrow> val \<Rightarrow> bool) \<Rightarrow> val \<Rightarrow> heap \<Rightarrow> val \<times> heap" where
  "array_filter_h p arr h =
     (let (r, h1) = alloc (filter (p h) (deref h arr)) h in (Ref r, h1))"

definition slice_h :: "nat \<Rightarrow> val \<Rightarrow> heap \<Rightarrow> val \<times> heap" where
  "slice_h n arr h = (let (r, h1) = alloc (drop n (deref h arr)) h in (Ref r, h1))"

text \<open>\<^verbatim>\<open>calculateBenefit\<close>: the spread \<^verbatim>\<open>...item\<close> copies the elements into a new array.\<close>

definition calculateBenefit_h :: "val \<Rightarrow> heap \<Rightarrow> val \<times> heap" where
  "calculateBenefit_h item h =
     (let a = deref h item;
          (r, h1) = alloc (Num (js_div (to_num (slot a 1)) (to_num (slot a 0))) # a) h
      in (Ref r, h1))"

definition sortByBenefit_h :: "heap \<Rightarrow> val \<Rightarrow> val \<Rightarrow> jsnum" where
  "sortByBenefit_h h left right =
     js_or (js_sub (to_num (slot (deref h right) 0)) (to_num (slot (deref h left) 0)))
           (js_sub (to_num (slot (deref h right) 1)) (to_num (slot (deref h left) 1)))"

text \<open>
  \<^verbatim>\<open>permute\<close>: \<^verbatim>\<open>result.push(left)\<close> writes the array \<open>result\<close> in place;
  \<^verbatim>\<open>[...left, right[0]]\<close> and each \<^verbatim>\<open>right.slice(1)\<close> are new arrays; \<^verbatim>\<open>exclude\<close> is
  \<^verbatim>\<open>left\<close> itself. The second call reads \<open>right\<close> from the store the first call
  leaves, so the recursion is not structural: it runs on fuel, and
  \<open>sortedCombinations_h\<close> gives it one more than the length of its argument
  (\<open>permute_h_returns\<close> proves that this is enough).
\<close>

fun permute_h :: "nat \<Rightarrow> val \<Rightarrow> val \<Rightarrow> nat \<Rightarrow> heap \<Rightarrow> heap option" where
  "permute_h 0 left right result h = None"
| "permute_h (Suc fuel) left right result h =
     (if length (deref h right) = 0 then Some (h[result := h ! result @ [left]])
      else
        let (include, h1) = alloc (deref h left @ [slot (deref h right) 0]) h;
            (s1, h2) = slice_h 1 right h1
        in case permute_h fuel (Ref include) s1 result h2 of
             None \<Rightarrow> None
           | Some h3 \<Rightarrow>
               let (s2, h4) = slice_h 1 right h3
               in permute_h fuel left s2 result h4)"

definition sortedCombinations_h :: "val \<Rightarrow> heap \<Rightarrow> (val \<times> heap) option" where
  "sortedCombinations_h items h =
     (let (result, h1) = alloc [] h;
          (left, h2) = alloc [] h1
      in case permute_h (Suc (length (deref h2 items))) (Ref left) items result h2 of
           None \<Rightarrow> None
         | Some h3 \<Rightarrow> Some (Ref result, h3))"

definition calculateTotalBenefit_h :: "val \<Rightarrow> heap \<Rightarrow> val \<times> heap" where
  "calculateTotalBenefit_h item h =
     (let a = deref h item;
          t0 = foldl (\<lambda>total current. js_add total (to_num (slot (deref h current) 0))) (Fin 0) a;
          t1 = foldl (\<lambda>total current. js_add total (to_num (slot (deref h current) 1))) (Fin 0) a;
          (r, h1) = alloc (Num t0 # Num t1 # a) h
      in (Ref r, h1))"

definition filterByWeight_h :: "jsnum option \<Rightarrow> heap \<Rightarrow> val \<Rightarrow> bool" where
  "filterByWeight_h threshold h item =
     js_le (to_num (slot (deref h item) 1)) (case threshold of None \<Rightarrow> PInf | Some t \<Rightarrow> t)"

definition sortByTotalBenefit_h :: "heap \<Rightarrow> val \<Rightarrow> val \<Rightarrow> jsnum" where
  "sortByTotalBenefit_h h left right =
     js_sub (to_num (slot (deref h right) 0)) (to_num (slot (deref h left) 0))"

text \<open>
  \<^verbatim>\<open>knapsack\<close>. \<^verbatim>\<open>results[0]\<close> is a reference when the filtered array is not empty;
  otherwise it is \<^verbatim>\<open>undefined\<close> and \<^verbatim>\<open>.slice\<close> throws.
\<close>

definition knapsack_h :: "val \<Rightarrow> jsnum option \<Rightarrow> heap \<Rightarrow> ((error + val) \<times> heap) option" where
  "knapsack_h items maximumWeight h =
     (let (annotated, h1) = array_map_h calculateBenefit_h items h;
          (sorted, h2) = array_sort_h sortByBenefit_h annotated h1
      in case sortedCombinations_h sorted h2 of
           None \<Rightarrow> None
         | Some (combinations, h3) \<Rightarrow>
             let (scored, h4) = array_map_h calculateTotalBenefit_h combinations h3;
                 (filtered, h5) = array_filter_h (filterByWeight_h maximumWeight) scored h4;
                 (results, h6) = array_sort_h sortByTotalBenefit_h filtered h5
             in case slot (deref h6 results) 0 of
                  Ref r0 \<Rightarrow>
                    let (sliced, h7) = slice_h 2 (Ref r0) h6;
                        (winner, h8) = array_map_h (slice_h 1) sliced h7
                    in Some (Inr winner, h8)
                | _ \<Rightarrow> Some (Inl TypeError, h6))"

text \<open>
  The caller's side: reading an array of pairs out of the store, and the store a
  caller builds for a literal collection.
\<close>

definition read_items :: "heap \<Rightarrow> val \<Rightarrow> item list" where
  "read_items h items =
     map (\<lambda>v. (to_num (slot (deref h v) 0), to_num (slot (deref h v) 1))) (deref h items)"

fun store_items :: "item list \<Rightarrow> heap \<Rightarrow> val list \<times> heap" where
  "store_items [] h = ([], h)"
| "store_items ((w, b) # its) h =
     (let (r, h1) = alloc [Num w, Num b] h;
          (rs, h2) = store_items its h1
      in (Ref r # rs, h2))"

definition caller_heap :: "item list \<Rightarrow> val \<times> heap" where
  "caller_heap its =
     (let (rs, h1) = store_items its []; (r, h2) = alloc rs h1 in (Ref r, h2))"

definition run_knapsack :: "item list \<Rightarrow> jsnum option \<Rightarrow> (error + item list) option" where
  "run_knapsack its cap =
     (let (items, h) = caller_heap its
      in case knapsack_h items cap h of
           None \<Rightarrow> None
         | Some (Inl e, h') \<Rightarrow> Some (Inl e)
         | Some (Inr w, h') \<Rightarrow> Some (Inr (read_items h' w)))"


text \<open>
  Reading the program's arrays back as the values of the functional model: a pair,
  an annotated item, and a scored combination (whose members are read through the
  store). \<open>ref_below n v\<close>: \<open>v\<close> is a reference to an address below \<open>n\<close>.
\<close>

definition item_of :: "val list \<Rightarrow> item" where
  "item_of a = (to_num (slot a 0), to_num (slot a 1))"

definition annotated_of :: "val list \<Rightarrow> annotated" where
  "annotated_of a = (to_num (slot a 0), to_num (slot a 1), to_num (slot a 2))"

definition scored_of :: "heap \<Rightarrow> val list \<Rightarrow> scored" where
  "scored_of h a =
     (to_num (slot a 0), to_num (slot a 1), map (\<lambda>v. annotated_of (deref h v)) (drop 2 a))"

definition ref_below :: "nat \<Rightarrow> val \<Rightarrow> bool" where
  "ref_below n v \<longleftrightarrow> (\<exists>q. v = Ref q \<and> q < n)"

text \<open>A well-formed argument: a reference to an array of references to arrays of two numbers.\<close>

fun is_pair :: "heap \<Rightarrow> val \<Rightarrow> bool" where
  "is_pair h (Ref q) = (q < length h \<and> (case h ! q of [Num w, Num b] \<Rightarrow> True | _ \<Rightarrow> False))"
| "is_pair h _ = False"

fun wf_items :: "heap \<Rightarrow> val \<Rightarrow> bool" where
  "wf_items h (Ref r) = (r < length h \<and> list_all (is_pair h) (h ! r))"
| "wf_items h _ = False"

text \<open>
  \<open>unchanged_below n h h'\<close>: the store has not shrunk and every array at an address
  below \<open>n\<close> is what it was. A callback \<open>allocates\<close> when it leaves every array of the
  store it was called in unchanged.
\<close>

definition unchanged_below :: "nat \<Rightarrow> heap \<Rightarrow> heap \<Rightarrow> bool" where
  "unchanged_below n h h' \<longleftrightarrow> length h \<le> length h' \<and> (\<forall>a<n. h' ! a = h ! a)"

definition allocates :: "(val \<Rightarrow> heap \<Rightarrow> val \<times> heap) \<Rightarrow> bool" where
  "allocates f \<longleftrightarrow> (\<forall>v h y h'. f v h = (y, h') \<longrightarrow> unchanged_below (length h) h h')"

definition caller_example :: "val \<times> heap" where
  "caller_example = caller_heap [(Fin 1, Fin 1), (Fin 3, Fin 5)]"

section \<open>Vocabulary of the statements\<close>

text \<open>
  Sums of JavaScript numbers: \<open>js_add\<close> with the zero \<open>Fin 0\<close> is a commutative
  monoid (in the model, where finite sums are exact), so \<open>sum_list\<close> is the sum of a
  list of numbers.
\<close>

instantiation jsnum :: comm_monoid_add
begin

definition zero_jsnum :: jsnum where
  "zero_jsnum = Fin 0"

definition plus_jsnum :: "jsnum \<Rightarrow> jsnum \<Rightarrow> jsnum" where
  "plus_jsnum a b = js_add a b"

instance
proof
  fix a b c :: jsnum
  show "a + b + c = a + (b + c)"
    unfolding plus_jsnum_def by (cases a; cases b; cases c) simp_all
  show "a + b = b + a"
    unfolding plus_jsnum_def by (cases a; cases b) simp_all
  show "0 + a = a"
    unfolding plus_jsnum_def zero_jsnum_def by (cases a) simp_all
qed

end


text \<open>
  An item the specification calls valid: a finite weight greater than zero and a
  finite benefit.
\<close>

fun valid_item :: "item \<Rightarrow> bool" where
  "valid_item (Fin w, Fin b) = (0 < w)"
| "valid_item _ = False"

text \<open>The capacity the filter compares with: \<^verbatim>\<open>Infinity\<close> when the argument is omitted.\<close>

definition capacity_of :: "jsnum option \<Rightarrow> jsnum" where
  "capacity_of maximumWeight = (case maximumWeight of None \<Rightarrow> PInf | Some t \<Rightarrow> t)"

text \<open>
  The score of a collection of items, as the program computes it: annotate with
  \<open>calculateBenefit\<close>, then read the two totals of \<open>calculateTotalBenefit\<close>.
\<close>

definition totalRatio :: "item list \<Rightarrow> jsnum" where
  "totalRatio its = fst (calculateTotalBenefit (map calculateBenefit its))"

definition totalWeight :: "item list \<Rightarrow> jsnum" where
  "totalWeight its = fst (snd (calculateTotalBenefit (map calculateBenefit its)))"




text \<open>The collection of the README and of the specification's literal scenario.\<close>

definition collection :: "item list" where
  "collection =
     [(Fin 1, Fin 1), (Fin 2, Fin 1), (Fin 3, Fin 2), (Fin 3, Fin 5), (Fin 4, Fin 2), (Fin 4, Fin 5)]"

section \<open>The enumeration of combinations\<close>

lemma permute_subseqs:
  "permute left right result = result @ map ((@) left) (subseqs right)"
proof (induction right arbitrary: left result)
  case Nil
  show ?case by simp
next
  case (Cons r right)
  show ?case by (simp add: Cons.IH Let_def)
qed

lemma sortedCombinations_subseqs: "sortedCombinations items = subseqs items"
proof -
  have "(@) [] = (\<lambda>ys::'a list. ys)" by (rule ext) simp
  then show ?thesis by (simp add: sortedCombinations_def permute_subseqs)
qed

lemma Pow_lessThan_Suc:
  "Pow {..<Suc n} = (\<lambda>A. insert 0 (Suc ` A)) ` Pow {..<n} \<union> (image Suc) ` Pow {..<n}"
proof (intro equalityI subsetI)
  fix B assume B: "B \<in> Pow {..<Suc n}"
  define A where "A = {j. Suc j \<in> B}"
  have A: "A \<in> Pow {..<n}" using B by (auto simp: A_def)
  have "B = (if 0 \<in> B then insert 0 (Suc ` A) else Suc ` A)"
  proof (intro equalityI subsetI)
    fix b assume "b \<in> B"
    then show "b \<in> (if 0 \<in> B then insert 0 (Suc ` A) else Suc ` A)"
      by (cases b) (auto simp: A_def)
  next
    fix b assume "b \<in> (if 0 \<in> B then insert 0 (Suc ` A) else Suc ` A)"
    then show "b \<in> B" by (auto simp: A_def split: if_splits)
  qed
  with A show "B \<in> (\<lambda>A. insert 0 (Suc ` A)) ` Pow {..<n} \<union> (image Suc) ` Pow {..<n}"
    by (cases "0 \<in> B") auto
next
  fix B assume "B \<in> (\<lambda>A. insert 0 (Suc ` A)) ` Pow {..<n} \<union> (image Suc) ` Pow {..<n}"
  then show "B \<in> Pow {..<Suc n}" by auto
qed

lemma Suc_preimage: "{j. Suc j \<in> Suc ` A} = A" "{j. Suc j \<in> insert 0 (Suc ` A)} = A"
  by auto

lemma nths_Cons_insert: "nths (x # xs) (insert 0 (Suc ` A)) = x # nths xs A"
  by (simp add: nths_Cons Suc_preimage)

lemma nths_Cons_Suc: "nths (x # xs) (Suc ` A) = nths xs A"
  by (simp add: nths_Cons Suc_preimage)

text \<open>
  Counted with multiplicity, the members of \<open>subseqs xs\<close> are the selections
  \<open>nths xs A\<close> of the index sets \<open>A\<close> below \<open>length xs\<close>, one for each index set.
\<close>

lemma mset_subseqs_nths:
  "mset (subseqs xs) = image_mset (nths xs) (mset_set (Pow {..<length xs}))"
proof (induction xs)
  case Nil
  show ?case by simp
next
  case (Cons x xs)
  let ?P = "Pow {..<length xs}"
  let ?f = "\<lambda>A. insert 0 (Suc ` A)"
  have fin: "finite ?P" by simp
  have inj1: "inj_on ?f ?P"
  proof (rule inj_onI)
    fix A B assume "insert 0 (Suc ` A) = insert 0 (Suc ` B)"
    then have "Suc ` A = Suc ` B"
      by (metis (no_types) Diff_insert_absorb image_iff nat.distinct(1))
    then show "A = B" by (simp add: inj_image_eq_iff)
  qed
  have inj2: "inj_on (image Suc) ?P"
    by (rule inj_onI) (simp add: inj_image_eq_iff)
  have disj: "?f ` ?P \<inter> (image Suc) ` ?P = {}" by auto
  have "mset_set (Pow {..<length (x # xs)}) = mset_set (?f ` ?P) + mset_set ((image Suc) ` ?P)"
    using fin disj by (simp add: Pow_lessThan_Suc mset_set_Union)
  also have "\<dots> = image_mset ?f (mset_set ?P) + image_mset (image Suc) (mset_set ?P)"
    using inj1 inj2 by (simp add: image_mset_mset_set)
  finally have "image_mset (nths (x # xs)) (mset_set (Pow {..<length (x # xs)}))
      = image_mset (\<lambda>A. x # nths xs A) (mset_set ?P) + image_mset (nths xs) (mset_set ?P)"
    by (simp add: image_mset.compositionality comp_def nths_Cons_insert nths_Cons_Suc)
  also have "\<dots> = image_mset ((#) x) (mset (subseqs xs)) + mset (subseqs xs)"
    by (simp add: Cons.IH image_mset.compositionality comp_def)
  finally show ?case by (simp add: Let_def)
qed

lemma distinct_subseqs: "distinct xs \<Longrightarrow> distinct (subseqs xs)"
  using distinct_set_subseqs [of xs] by (simp add: distinct_map)

text \<open>
  C2. For an input of length \<open>N\<close>, \<open>sortedCombinations\<close> produces exactly \<open>2 ^ N\<close>
  combinations; they are the selections of the \<open>2 ^ N\<close> sets of positions of the
  input, each set of positions taken exactly once (an equality of multisets, so
  nothing is repeated and nothing is left out); each combination is a subsequence
  of the input, its members in the order the input has them; and when the input has
  no repeated element, no two combinations are equal and the combinations are
  exactly the subsequences of the input.
\<close>

theorem sortedCombinations_complete:
  "length (sortedCombinations items) = 2 ^ length items
   \<and> mset (sortedCombinations items)
       = image_mset (nths items) (mset_set (Pow {..<length items}))
   \<and> (\<forall>c \<in> set (sortedCombinations items). subseq c items)
   \<and> set (sortedCombinations items) = {c. subseq c items}
   \<and> (distinct items \<longrightarrow> distinct (sortedCombinations items))"
  by (simp add: sortedCombinations_subseqs length_subseqs mset_subseqs_nths
      set_subseqs_eq distinct_subseqs)

theorem sortedCombinations_complete_witness:
  "length (sortedCombinations [1, 2, 3 :: nat]) = 8
   \<and> [1, 3] \<in> set (sortedCombinations [1, 2, 3 :: nat])
   \<and> subseq [1, 3] [1, 2, 3 :: nat]
   \<and> distinct [1, 2, 3 :: nat]
   \<and> distinct (sortedCombinations [1, 2, 3 :: nat])"
  using sortedCombinations_complete [of "[1, 2, 3 :: nat]"]
  by (simp add: sortedCombinations_def)

section \<open>The scorer\<close>

lemma foldl_js_add:
  "foldl (\<lambda>total current. js_add total (f current)) a xs = a + sum_list (map f xs)"
  by (induction xs arbitrary: a) (simp_all add: plus_jsnum_def[symmetric] add.assoc)

lemma calculateTotalBenefit_sums:
  "calculateTotalBenefit members
     = (sum_list (map fst members), sum_list (map (\<lambda>m. fst (snd m)) members), members)"
  by (simp add: calculateTotalBenefit_def foldl_js_add zero_jsnum_def[symmetric])




section \<open>The sort\<close>

lemma mset_sort_insert: "mset (sort_insert cmp x ys) = add_mset x (mset ys)"
  by (induction ys) simp_all

lemma mset_array_sort: "mset (array_sort cmp xs) = mset xs"
  by (induction xs) (simp_all add: mset_sort_insert)

lemma set_array_sort: "set (array_sort cmp xs) = set xs"
  by (metis mset_array_sort set_mset_mset)

lemma length_array_sort: "length (array_sort cmp xs) = length xs"
  by (metis mset_array_sort size_mset)

lemma array_sort_eq_Nil: "array_sort cmp xs = [] \<longleftrightarrow> xs = []"
  by (metis length_array_sort length_0_conv)



lemma js_le_trans: "js_le a b \<Longrightarrow> js_le b c \<Longrightarrow> js_le a c"
  by (cases a; cases b; cases c) simp_all





section \<open>The pipeline on valid items\<close>

lemma subseq_mset_subset: "subseq xs ys \<Longrightarrow> mset xs \<subseteq># mset ys"
proof (induction rule: list_emb.induct)
  case (list_emb_Nil ys)
  show ?case by simp
next
  case (list_emb_Cons xs ys y)
  then show ?case by (auto simp: subseteq_mset_def intro: le_SucI)
next
  case (list_emb_Cons2 x y xs ys)
  then show ?case by simp
qed





lemma sum_list_nonneg:
  "(\<forall>m\<in>set ms. \<exists>q. f m = Fin q \<and> 0 \<le> q) \<Longrightarrow> \<exists>q. sum_list (map f ms) = Fin q \<and> 0 \<le> q"
  by (induction ms) (auto simp: zero_jsnum_def plus_jsnum_def)

lemma valid_itemD: "valid_item it \<Longrightarrow> \<exists>w b. it = (Fin w, Fin b) \<and> 0 < w"
  by (cases it rule: valid_item.cases) simp_all

lemma snd_calculateBenefit: "snd (calculateBenefit it) = it"
  by (cases it) simp

lemma map_snd_calculateBenefit: "map snd (map calculateBenefit its) = its"
  by (simp add: comp_def snd_calculateBenefit)

lemma mset_ranked: "mset (ranked items) = image_mset calculateBenefit (mset items)"
  by (simp add: ranked_def mset_array_sort)

lemma set_ranked: "set (ranked items) = calculateBenefit ` set items"
  by (simp add: ranked_def set_array_sort)

lemma in_knapsack_combinations:
  "c \<in> set (knapsack_combinations items) \<longleftrightarrow> subseq c (ranked items)"
  by (simp add: knapsack_combinations_def sortedCombinations_subseqs)

lemma subseq_ranked_members:
  assumes "subseq c (ranked items)" and "a \<in> set c"
  shows "\<exists>it\<in>set items. a = calculateBenefit it"
proof -
  have "a \<in> set (ranked items)" using list_emb_set [OF assms(1) assms(2)] by auto
  then show ?thesis by (auto simp: set_ranked)
qed


lemma unwrap_sub_mset:
  assumes "subseq c (ranked items)"
  shows "mset (map snd c) \<subseteq># mset items"
proof -
  have "mset c \<subseteq># image_mset calculateBenefit (mset items)"
    using subseq_mset_subset [OF assms] by (simp add: mset_ranked)
  then have "image_mset snd (mset c) \<subseteq># image_mset snd (image_mset calculateBenefit (mset items))"
    by (rule image_mset_subseteq_mono)
  then show ?thesis
    by (simp add: image_mset.compositionality comp_def snd_calculateBenefit)
qed

lemma in_candidates:
  "s \<in> set (candidates items cap) \<longleftrightarrow>
     (\<exists>c. subseq c (ranked items) \<and> s = calculateTotalBenefit c
          \<and> js_le (fst (snd s)) (capacity_of cap))"
  by (auto simp: candidates_def in_knapsack_combinations filterByWeight_def capacity_of_def)

lemma empty_candidate:
  assumes "js_le (Fin 0) (capacity_of cap)"
  shows "(Fin 0, Fin 0, []) \<in> set (candidates items cap)"
proof -
  have "subseq [] (ranked items) \<and> (Fin 0, Fin 0, []) = calculateTotalBenefit []
      \<and> js_le (fst (snd (Fin 0, Fin 0, [] :: annotated list))) (capacity_of cap)"
    using assms by (simp add: calculateTotalBenefit_def)
  then show ?thesis unfolding in_candidates by blast
qed


lemma valid_weight_nonneg:
  assumes "\<forall>it\<in>set items. valid_item it" and "subseq c (ranked items)"
  shows "\<exists>q. fst (snd (calculateTotalBenefit c)) = Fin q \<and> 0 \<le> q"
proof -
  have "\<exists>q. fst (snd a) = Fin q \<and> 0 \<le> q" if mem: "a \<in> set c" for a
  proof -
    obtain it where "it \<in> set items" "a = calculateBenefit it"
      using subseq_ranked_members [OF assms(2) mem] by blast
    moreover obtain w b where "it = (Fin w, Fin b)" "0 < w"
      using assms(1) valid_itemD \<open>it \<in> set items\<close> by blast
    ultimately show ?thesis by simp
  qed
  then show ?thesis by (simp add: calculateTotalBenefit_sums sum_list_nonneg)
qed






section \<open>The literal scenario\<close>

text \<open>
  With the capacity omitted \<open>knapsack\<close> does not return the six items in the order
  \<open>[[1,1],[2,1],[3,2],[3,5],[4,2],[4,5]]\<close>, which is the caller's order and not the
  ranked one.
\<close>

theorem knapsack_literal_unconstrained_counterexample:
  "knapsack collection None
     \<noteq> Inr [(Fin 1, Fin 1), (Fin 2, Fin 1), (Fin 3, Fin 2), (Fin 3, Fin 5), (Fin 4, Fin 2), (Fin 4, Fin 5)]"
  by code_simp

text \<open>
  C4 (amended). On the collection \<open>[[1,1],[2,1],[3,2],[3,5],[4,2],[4,5]]\<close>,
  \<open>knapsack\<close> returns \<open>[[3,5],[4,5],[1,1],[3,2]]\<close> for capacity 12, \<open>[[1,1]]\<close> for
  capacity 1, \<open>[[1,1]]\<close> for capacity 2, \<open>[[3,5]]\<close> for capacity 3, and with the capacity
  omitted all six items in ranked order, which is
  \<open>[[3,5],[4,5],[1,1],[3,2],[4,2],[2,1]]\<close>.
\<close>

theorem knapsack_literal_scenario:
  "knapsack collection (Some (Fin 12))
     = Inr [(Fin 3, Fin 5), (Fin 4, Fin 5), (Fin 1, Fin 1), (Fin 3, Fin 2)]
   \<and> knapsack collection (Some (Fin 1)) = Inr [(Fin 1, Fin 1)]
   \<and> knapsack collection (Some (Fin 2)) = Inr [(Fin 1, Fin 1)]
   \<and> knapsack collection (Some (Fin 3)) = Inr [(Fin 3, Fin 5)]
   \<and> knapsack collection None
     = Inr [(Fin 3, Fin 5), (Fin 4, Fin 5), (Fin 1, Fin 1), (Fin 3, Fin 2), (Fin 4, Fin 2), (Fin 2, Fin 1)]
   \<and> map snd (ranked collection)
     = [(Fin 3, Fin 5), (Fin 4, Fin 5), (Fin 1, Fin 1), (Fin 3, Fin 2), (Fin 4, Fin 2), (Fin 2, Fin 1)]"
proof (intro conjI)
  show "knapsack collection (Some (Fin 12))
     = Inr [(Fin 3, Fin 5), (Fin 4, Fin 5), (Fin 1, Fin 1), (Fin 3, Fin 2)]"
    by code_simp
  show "knapsack collection (Some (Fin 1)) = Inr [(Fin 1, Fin 1)]" by code_simp
  show "knapsack collection (Some (Fin 2)) = Inr [(Fin 1, Fin 1)]" by code_simp
  show "knapsack collection (Some (Fin 3)) = Inr [(Fin 3, Fin 5)]" by code_simp
  show "knapsack collection None
     = Inr [(Fin 3, Fin 5), (Fin 4, Fin 5), (Fin 1, Fin 1), (Fin 3, Fin 2), (Fin 4, Fin 2), (Fin 2, Fin 1)]"
    by code_simp
  show "map snd (ranked collection)
     = [(Fin 3, Fin 5), (Fin 4, Fin 5), (Fin 1, Fin 1), (Fin 3, Fin 2), (Fin 4, Fin 2), (Fin 2, Fin 1)]"
    by code_simp
qed

section \<open>Results and failures on any input\<close>

lemma knapsack_Inr_combination:
  assumes "knapsack items cap = Inr selected"
  shows "\<exists>c. subseq c (ranked items) \<and> selected = map snd c
           \<and> calculateTotalBenefit c \<in> set (candidates items cap)"
proof -
  obtain r rest where r: "knapsack_results items cap = r # rest"
    using assms by (cases "knapsack_results items cap") (simp_all add: knapsack_def)
  then have sel: "selected = map snd (snd (snd r))" using assms by (simp add: knapsack_def)
  have "r \<in> set (knapsack_results items cap)" using r by simp
  then have rc: "r \<in> set (candidates items cap)"
    by (simp add: knapsack_results_def set_array_sort)
  then obtain c where "subseq c (ranked items)" "r = calculateTotalBenefit c"
    unfolding in_candidates by blast
  then have "subseq c (ranked items) \<and> selected = map snd c
           \<and> calculateTotalBenefit c \<in> set (candidates items cap)"
    using sel rc by (simp add: calculateTotalBenefit_def)
  then show ?thesis by blast
qed

lemma knapsack_only_TypeError: "knapsack items cap = Inl e \<Longrightarrow> e = TypeError"
  by (cases "knapsack_results items cap") (simp_all add: knapsack_def)

lemma knapsack_returns:
  assumes "js_le (Fin 0) (capacity_of cap)"
  shows "\<exists>selected. knapsack items cap = Inr selected"
proof -
  have "candidates items cap \<noteq> []" using empty_candidate [OF assms, of items] by auto
  then have "knapsack_results items cap \<noteq> []"
    by (simp add: knapsack_results_def array_sort_eq_Nil)
  then show ?thesis by (cases "knapsack_results items cap") (simp_all add: knapsack_def)
qed

text \<open>
  The item of weight 0 and benefit 1 is annotated with the ratio \<^verbatim>\<open>Infinity\<close>, and
  \<open>knapsack\<close> returns it as the selection: no \<open>InvalidItem\<close> failure is raised.
\<close>

theorem knapsack_invalid_item_counterexample:
  "\<not> valid_item (Fin 0, Fin 1)
   \<and> calculateBenefit (Fin 0, Fin 1) = (PInf, Fin 0, Fin 1)
   \<and> knapsack [(Fin 0, Fin 1)] (Some (Fin 5)) = Inr [(Fin 0, Fin 1)]
   \<and> knapsack [(Fin 0, Fin 1)] (Some (Fin 5)) \<noteq> Inl InvalidItem"
  by code_simp

text \<open>
  C5 (amended). The annotation step validates nothing: for every pair it returns
  \<^verbatim>\<open>[benefit / weight, weight, benefit]\<close>. For every input collection, also one with
  an item whose weight is zero, negative or not finite or whose benefit is not
  finite, \<open>knapsack\<close> never fails with \<open>InvalidItem\<close>, and for a capacity that is at
  least 0 (or omitted) it returns a selection drawn from the input.
\<close>

theorem knapsack_no_validation:
  "calculateBenefit (weight, benefit) = (js_div benefit weight, weight, benefit)
   \<and> knapsack items maximumWeight \<noteq> Inl InvalidItem
   \<and> (js_le (Fin 0) (capacity_of maximumWeight)
        \<longrightarrow> (\<exists>selected. knapsack items maximumWeight = Inr selected
                \<and> mset selected \<subseteq># mset items))"
proof (intro conjI impI)
  show "calculateBenefit (weight, benefit) = (js_div benefit weight, weight, benefit)" by simp
  show "knapsack items maximumWeight \<noteq> Inl InvalidItem"
    using knapsack_only_TypeError by fastforce
  assume "js_le (Fin 0) (capacity_of maximumWeight)"
  then obtain selected where s: "knapsack items maximumWeight = Inr selected"
    using knapsack_returns by blast
  then obtain c where "subseq c (ranked items)" "selected = map snd c"
    using knapsack_Inr_combination by blast
  then have "mset selected \<subseteq># mset items" using unwrap_sub_mset by simp
  with s show "\<exists>selected. knapsack items maximumWeight = Inr selected
      \<and> mset selected \<subseteq># mset items"
    by blast
qed

theorem knapsack_no_validation_witness:
  "\<not> valid_item (Fin (- 1), Fin 1)
   \<and> js_le (Fin 0) (capacity_of (Some (Fin 5)))
   \<and> knapsack [(Fin (- 1), Fin 1)] (Some (Fin 5)) = Inr []
   \<and> knapsack [(Fin (- 1), Fin 1)] (Some (Fin 5)) \<noteq> Inl InvalidItem"
proof -
  have k: "knapsack [(Fin (- 1), Fin 1)] (Some (Fin 5)) = Inr []" by code_simp
  have c: "js_le (Fin 0) (capacity_of (Some (Fin 5)))" by (simp add: capacity_of_def)
  show ?thesis
    using knapsack_no_validation [of "Fin (- 1)" "Fin 1" "[(Fin (- 1), Fin 1)]" "Some (Fin 5)"] k c
    by simp
qed

text \<open>
  For the capacity -1 the filtered array is empty, line 50 reads \<^verbatim>\<open>results[0]\<close> of
  it, and the failure is the \<^verbatim>\<open>TypeError\<close> of \<^verbatim>\<open>undefined.slice\<close>, not
  \<open>NoFeasibleSolution\<close>.
\<close>

theorem knapsack_negative_capacity_counterexample:
  "candidates [(Fin 1, Fin 1)] (Some (Fin (- 1))) = []
   \<and> knapsack [(Fin 1, Fin 1)] (Some (Fin (- 1))) = Inl TypeError
   \<and> knapsack [(Fin 1, Fin 1)] (Some (Fin (- 1))) \<noteq> Inl NoFeasibleSolution"
  by code_simp

text \<open>
  C6 (amended). For every collection of valid items and every capacity that is not
  at least 0 (negative, \<^verbatim>\<open>-Infinity\<close>, or \<^verbatim>\<open>NaN\<close>), no combination passes the
  capacity filter, not even the empty one; \<open>knapsack\<close> then indexes into the empty
  result and fails with a \<^verbatim>\<open>TypeError\<close>.
\<close>

theorem knapsack_negative_capacity:
  assumes valid: "\<forall>it\<in>set items. valid_item it"
    and neg: "\<not> js_le (Fin 0) (capacity_of maximumWeight)"
  shows "candidates items maximumWeight = []
         \<and> knapsack_results items maximumWeight = []
         \<and> knapsack items maximumWeight = Inl TypeError"
proof -
  have "s \<notin> set (candidates items maximumWeight)" for s
  proof
    assume "s \<in> set (candidates items maximumWeight)"
    then obtain c where c: "subseq c (ranked items)" and s: "s = calculateTotalBenefit c"
      and le: "js_le (fst (snd s)) (capacity_of maximumWeight)"
      unfolding in_candidates by blast
    obtain q where "fst (snd s) = Fin q" "0 \<le> q"
      using valid_weight_nonneg [OF valid c] s by blast
    then have "js_le (Fin 0) (fst (snd s))" by simp
    then have "js_le (Fin 0) (capacity_of maximumWeight)" using le js_le_trans by blast
    with neg show False by simp
  qed
  then have e: "candidates items maximumWeight = []"
    by (cases "candidates items maximumWeight") auto
  then show ?thesis by (simp add: knapsack_results_def knapsack_def)
qed

theorem knapsack_negative_capacity_witness:
  "valid_item (Fin 1, Fin 1) \<and> \<not> js_le (Fin 0) (capacity_of (Some (Fin (- 1))))
   \<and> candidates [(Fin 1, Fin 1)] (Some (Fin (- 1))) = []
   \<and> knapsack [(Fin 1, Fin 1)] (Some (Fin (- 1))) = Inl TypeError"
proof -
  have v: "\<forall>it\<in>set [(Fin 1, Fin 1)]. valid_item it" by simp
  have n: "\<not> js_le (Fin 0) (capacity_of (Some (Fin (- 1))))" by (simp add: capacity_of_def)
  show ?thesis using knapsack_negative_capacity [OF v n] v n by simp
qed

text \<open>
  C9. Dropping the first slot of \<open>calculateBenefit item\<close> gives \<open>item\<close> back, for
  every item and so for every collection; and whenever \<open>knapsack\<close> returns, every
  pair of the returned sequence is a pair of the caller's collection (with
  multiplicity: the selection is a sub-collection of the input).
\<close>

theorem annotate_unwrap_identity:
  "snd (calculateBenefit item) = item
   \<and> map snd (map calculateBenefit items) = items
   \<and> (knapsack items maximumWeight = Inr selected
        \<longrightarrow> set selected \<subseteq> set items \<and> mset selected \<subseteq># mset items)"
proof (intro conjI impI)
  show "snd (calculateBenefit item) = item" by (rule snd_calculateBenefit)
  show "map snd (map calculateBenefit items) = items" by (rule map_snd_calculateBenefit)
  assume "knapsack items maximumWeight = Inr selected"
  then obtain c where "subseq c (ranked items)" "selected = map snd c"
    using knapsack_Inr_combination by blast
  then show m: "mset selected \<subseteq># mset items" using unwrap_sub_mset by simp
  then show "set selected \<subseteq> set items" by (metis set_mset_mono set_mset_mset)
qed

theorem annotate_unwrap_identity_witness:
  "snd (calculateBenefit (Fin 3, Fin 5)) = (Fin 3, Fin 5)
   \<and> knapsack [(Fin 1, Fin 1), (Fin 3, Fin 5)] (Some (Fin 3)) = Inr [(Fin 3, Fin 5)]
   \<and> set [(Fin 3, Fin 5)] \<subseteq> set [(Fin 1, Fin 1), (Fin 3, Fin 5)]"
proof -
  have k: "knapsack [(Fin 1, Fin 1), (Fin 3, Fin 5)] (Some (Fin 3)) = Inr [(Fin 3, Fin 5)]"
    by code_simp
  show ?thesis
    using annotate_unwrap_identity [of "(Fin 3, Fin 5)" "[(Fin 1, Fin 1), (Fin 3, Fin 5)]"
        "Some (Fin 3)" "[(Fin 3, Fin 5)]"] k
    by simp
qed

section \<open>The order of the ranked sequence\<close>









section \<open>Ties\<close>









text \<open>
  A tie between subsets with positive benefits: \<open>{0, 3}\<close> (bitmask 9) and \<open>{1, 2}\<close>
  (bitmask 6) of the ranked sequence both weigh 4 and both have total ratio 5;
  \<open>knapsack\<close> returns the former.
\<close>

lemma knapsack_tie_positive_example:
  "knapsack [(Fin 3, Fin 12), (Fin 2, Fin 6), (Fin 2, Fin 4), (Fin 1, Fin 1)] (Some (Fin 4))
     = Inr [(Fin 3, Fin 12), (Fin 1, Fin 1)]
   \<and> totalRatio [(Fin 3, Fin 12), (Fin 1, Fin 1)] = Fin 5
   \<and> totalRatio [(Fin 2, Fin 6), (Fin 2, Fin 4)] = Fin 5
   \<and> totalWeight [(Fin 2, Fin 6), (Fin 2, Fin 4)] = Fin 4"
  by code_simp



section \<open>The caller's arrays\<close>

lemma unchanged_below_refl: "unchanged_below n h h"
  by (simp add: unchanged_below_def)

lemma unchanged_below_trans:
  "unchanged_below n h1 h2 \<Longrightarrow> unchanged_below n h2 h3 \<Longrightarrow> unchanged_below n h1 h3"
  by (simp add: unchanged_below_def)

lemma unchanged_below_mono:
  "unchanged_below n h h' \<Longrightarrow> m \<le> n \<Longrightarrow> unchanged_below m h h'"
  by (simp add: unchanged_below_def)

lemma alloc_unchanged:
  assumes "alloc a h = (r, h')"
  shows "r = length h" and "length h' = Suc (length h)" and "unchanged_below (length h) h h'"
  using assms by (auto simp: alloc_def unchanged_below_def nth_append)

lemma update_unchanged: "n \<le> r \<Longrightarrow> unchanged_below n h (h[r := x])"
  by (simp add: unchanged_below_def)

lemma allocatesD: "allocates f \<Longrightarrow> f v h = (y, h') \<Longrightarrow> unchanged_below (length h) h h'"
  by (simp add: allocates_def)

lemma slice_h_unchanged:
  assumes "slice_h k arr h = (v, h')"
  shows "v = Ref (length h)" and "length h' = Suc (length h)"
    and "unchanged_below (length h) h h'"
  using assms alloc_unchanged [of "drop k (deref h arr)" h]
  by (auto simp: slice_h_def split: prod.splits)

lemma calculateBenefit_h_unchanged:
  assumes "calculateBenefit_h item h = (v, h')"
  shows "unchanged_below (length h) h h'"
  using assms by (auto simp: calculateBenefit_h_def Let_def alloc_def unchanged_below_def nth_append)

lemma calculateTotalBenefit_h_unchanged:
  assumes "calculateTotalBenefit_h item h = (v, h')"
  shows "unchanged_below (length h) h h'"
  using assms
  by (auto simp: calculateTotalBenefit_h_def Let_def alloc_def unchanged_below_def nth_append)

lemma allocates_slice_h: "allocates (slice_h k)"
  using slice_h_unchanged(3) by (simp add: allocates_def)

lemma allocates_calculateBenefit_h: "allocates calculateBenefit_h"
  using calculateBenefit_h_unchanged by (simp add: allocates_def)

lemma allocates_calculateTotalBenefit_h: "allocates calculateTotalBenefit_h"
  using calculateTotalBenefit_h_unchanged by (simp add: allocates_def)

lemma map_loop_unchanged:
  assumes f: "allocates f"
    and run: "map_loop f arr ks h = (ys, h')"
  shows "unchanged_below (length h) h h'"
  using run
proof (induction ks arbitrary: h ys h')
  case Nil
  then show ?case by (simp add: unchanged_below_refl)
next
  case (Cons k ks)
  obtain y h1 where s1: "f (slot (deref h arr) k) h = (y, h1)" by (cases "f (slot (deref h arr) k) h")
  obtain zs h2 where s2: "map_loop f arr ks h1 = (zs, h2)" by (cases "map_loop f arr ks h1")
  have e: "h' = h2" using Cons.prems s1 s2 by simp
  have u1: "unchanged_below (length h) h h1" by (rule allocatesD [OF f s1])
  have u2: "unchanged_below (length h1) h1 h2" by (rule Cons.IH [OF s2])
  have "length h \<le> length h1" using u1 by (simp add: unchanged_below_def)
  then have "unchanged_below (length h) h1 h2" using u2 unchanged_below_mono by blast
  then show ?case using u1 e unchanged_below_trans by blast
qed

lemma array_map_h_unchanged:
  assumes f: "allocates f"
    and run: "array_map_h f arr h = (v, h')"
  shows "unchanged_below (length h) h h'" and "\<exists>r. v = Ref r \<and> length h \<le> r \<and> r < length h'"
proof -
  obtain ys h1 where s1: "map_loop f arr [0..<length (deref h arr)] h = (ys, h1)"
    by (cases "map_loop f arr [0..<length (deref h arr)] h")
  have u1: "unchanged_below (length h) h h1" by (rule map_loop_unchanged [OF f s1])
  have e: "v = Ref (length h1)" "h' = h1 @ [ys]"
    using run s1 by (simp_all add: array_map_h_def alloc_def)
  have le: "length h \<le> length h1" using u1 by (simp add: unchanged_below_def)
  have "unchanged_below (length h) h1 h'"
    using e le by (simp add: unchanged_below_def nth_append)
  then show "unchanged_below (length h) h h'" using u1 unchanged_below_trans by blast
  show "\<exists>r. v = Ref r \<and> length h \<le> r \<and> r < length h'" using e le by simp
qed

lemma array_filter_h_unchanged:
  assumes "array_filter_h p arr h = (v, h')"
  shows "unchanged_below (length h) h h'" and "\<exists>r. v = Ref r \<and> length h \<le> r \<and> r < length h'"
  using assms by (auto simp: array_filter_h_def alloc_def unchanged_below_def nth_append)

lemma array_sort_h_unchanged:
  assumes "array_sort_h cmp v h = (v', h')" and "\<And>r. v = Ref r \<Longrightarrow> n \<le> r"
  shows "unchanged_below n h h'" and "v' = v" and "length h' = length h"
  using assms by (cases v; auto simp: unchanged_below_def)+

text \<open>\<open>permute\<close> writes the array \<open>result\<close> and nothing else that existed at the call.\<close>

lemma permute_h_writes:
  assumes "permute_h fuel left right result h = Some h'"
  shows "length h \<le> length h' \<and> (\<forall>a<length h. a \<noteq> result \<longrightarrow> h' ! a = h ! a)"
  using assms
proof (induction fuel arbitrary: left right h h')
  case 0
  then show ?case by simp
next
  case (Suc fuel)
  show ?case
  proof (cases "length (deref h right) = 0")
    case True
    then have "h' = h[result := h ! result @ [left]]" using Suc.prems by simp
    then show ?thesis by simp
  next
    case False
    let ?h1 = "h @ [deref h left @ [slot (deref h right) 0]]"
    let ?h2 = "?h1 @ [drop 1 (deref ?h1 right)]"
    from False Suc.prems obtain h3 where
      r1: "permute_h fuel (Ref (length h)) (Ref (length ?h1)) result ?h2 = Some h3"
      and r2: "permute_h fuel left (Ref (length h3)) result (h3 @ [drop 1 (deref h3 right)]) = Some h'"
      by (auto simp: alloc_def slice_h_def Let_def split: option.splits)
    from Suc.IH [OF r1] have i1: "length ?h2 \<le> length h3"
      and j1: "\<forall>a<length ?h2. a \<noteq> result \<longrightarrow> h3 ! a = ?h2 ! a" by blast+
    from Suc.IH [OF r2] have i2: "length (h3 @ [drop 1 (deref h3 right)]) \<le> length h'"
      and j2: "\<forall>a<length (h3 @ [drop 1 (deref h3 right)]). a \<noteq> result
                \<longrightarrow> h' ! a = (h3 @ [drop 1 (deref h3 right)]) ! a" by blast+
    have "length h \<le> length h'" using i1 i2 by simp
    moreover have "h' ! a = h ! a" if a: "a < length h" "a \<noteq> result" for a
    proof -
      have "a < length h3" using a i1 by simp
      then have "h' ! a = h3 ! a" using j2 a by (simp add: nth_append)
      also have "\<dots> = ?h2 ! a" using j1 a by simp
      also have "\<dots> = h ! a" using a by (simp add: nth_append)
      finally show ?thesis .
    qed
    ultimately show ?thesis by blast
  qed
qed

lemma deref_fresh: "deref (h @ [a]) (Ref (length h)) = a"
  by simp

text \<open>With fuel above the length of \<open>right\<close>, \<open>permute\<close> returns.\<close>

lemma permute_h_returns:
  assumes "length (deref h right) < fuel" and "result < length h" and "right \<noteq> Ref result"
  shows "\<exists>h'. permute_h fuel left right result h = Some h'"
  using assms
proof (induction fuel arbitrary: left right h)
  case 0
  then show ?case by simp
next
  case (Suc fuel)
  show ?case
  proof (cases "length (deref h right) = 0")
    case True
    then show ?thesis by simp
  next
    case False
    then obtain r where r: "right = Ref r" "r < length h"
      by (cases right) (auto split: if_splits)
    have rr: "r \<noteq> result" using Suc.prems r by simp
    let ?h1 = "h @ [deref h left @ [slot (deref h right) 0]]"
    let ?h2 = "?h1 @ [drop 1 (deref ?h1 right)]"
    have d1: "deref ?h1 right = deref h right" using r by (simp add: nth_append)
    have e2: "deref ?h2 (Ref (length ?h1)) = drop 1 (deref ?h1 right)" by (rule deref_fresh)
    have short: "length (drop 1 (deref h right)) < fuel"
      using Suc.prems(1) False by (cases "deref h right") auto
    have l2: "length (deref ?h2 (Ref (length ?h1))) = length (drop 1 (deref h right))"
      by (subst e2) (simp only: d1)
    have "length (deref ?h2 (Ref (length ?h1))) < fuel"
      by (rule ord_eq_less_trans [OF l2 short])
    moreover have "result < length ?h2" using Suc.prems(2) by simp
    moreover have "Ref (length ?h1) \<noteq> Ref result" using Suc.prems(2) by simp
    ultimately obtain h3 where
      r1: "permute_h fuel (Ref (length h)) (Ref (length ?h1)) result ?h2 = Some h3"
      using Suc.IH by blast
    from permute_h_writes [OF r1] have i1: "length ?h2 \<le> length h3"
      and j1: "\<forall>a<length ?h2. a \<noteq> result \<longrightarrow> h3 ! a = ?h2 ! a" by blast+
    have "h3 ! r = ?h2 ! r" using j1 r rr by simp
    then have d3: "deref h3 right = deref h right" using r i1 by (simp add: nth_append)
    let ?h4 = "h3 @ [drop 1 (deref h3 right)]"
    have e4: "deref ?h4 (Ref (length h3)) = drop 1 (deref h3 right)" by (rule deref_fresh)
    have l4: "length (deref ?h4 (Ref (length h3))) = length (drop 1 (deref h right))"
      by (subst e4) (simp only: d3)
    have "length (deref ?h4 (Ref (length h3))) < fuel"
      by (rule ord_eq_less_trans [OF l4 short])
    moreover have "result < length ?h4" using Suc.prems(2) i1 by simp
    moreover have "Ref (length h3) \<noteq> Ref result" using Suc.prems(2) i1 by simp
    ultimately obtain h' where
      r2: "permute_h fuel left (Ref (length h3)) result ?h4 = Some h'"
      using Suc.IH by blast
    show ?thesis using False r1 r2 by (simp add: alloc_def slice_h_def Let_def)
  qed
qed

lemma sortedCombinations_h_unchanged:
  "\<exists>r h'. sortedCombinations_h items h = Some (Ref r, h')
          \<and> length h \<le> r \<and> unchanged_below (length h) h h'"
proof -
  let ?h2 = "(h @ [[]]) @ [[]]"
  let ?run = "permute_h (Suc (length (deref ?h2 items))) (Ref (length (h @ [[]]))) items
                (length h) ?h2"
  have "\<exists>h'. ?run = Some h'"
  proof (cases "items = Ref (length h)")
    case True
    then have "deref ?h2 items = []" by (simp add: nth_append)
    then show ?thesis by simp
  next
    case False
    show ?thesis by (rule permute_h_returns) (use False in simp_all)
  qed
  then obtain h' where run: "?run = Some h'" by blast
  from permute_h_writes [OF run] have i: "length ?h2 \<le> length h'"
    and j: "\<forall>a<length ?h2. a \<noteq> length h \<longrightarrow> h' ! a = ?h2 ! a" by blast+
  have "unchanged_below (length h) h h'"
    unfolding unchanged_below_def
  proof (intro conjI allI impI)
    show "length h \<le> length h'" using i by simp
    fix a assume "a < length h"
    then show "h' ! a = h ! a" using j by (simp add: nth_append)
  qed
  moreover have "sortedCombinations_h items h = Some (Ref (length h), h')"
    using run by (simp add: sortedCombinations_h_def alloc_def del: permute_h.simps)
  ultimately show ?thesis by blast
qed

lemma unchanged_below_le: "unchanged_below n h h' \<Longrightarrow> length h \<le> length h'"
  by (simp add: unchanged_below_def)

lemma knapsack_h_unchanged:
  "\<exists>outcome h'. knapsack_h items maximumWeight h = Some (outcome, h')
       \<and> unchanged_below (length h) h h'"
proof -
  let ?n = "length h"
  obtain annotated h1 where s1: "array_map_h calculateBenefit_h items h = (annotated, h1)"
    by (cases "array_map_h calculateBenefit_h items h")
  have u1: "unchanged_below ?n h h1"
    and a1: "\<exists>r. annotated = Ref r \<and> ?n \<le> r \<and> r < length h1"
    using array_map_h_unchanged [OF allocates_calculateBenefit_h s1] by blast+
  obtain sorted h2 where s2: "array_sort_h sortByBenefit_h annotated h1 = (sorted, h2)"
    by (cases "array_sort_h sortByBenefit_h annotated h1")
  have u2: "unchanged_below ?n h1 h2" and l2: "length h2 = length h1"
    using array_sort_h_unchanged [OF s2, of ?n] a1 by auto
  obtain r3 h3 where s3: "sortedCombinations_h sorted h2 = Some (Ref r3, h3)"
    and u3': "unchanged_below (length h2) h2 h3"
    using sortedCombinations_h_unchanged [of sorted h2] by blast
  have n1: "?n \<le> length h1" using u1 by (rule unchanged_below_le)
  have n2: "?n \<le> length h2" using n1 l2 by simp
  have u3: "unchanged_below ?n h2 h3" using u3' n2 by (rule unchanged_below_mono)
  have n3: "?n \<le> length h3" using u3' n2 unchanged_below_le by fastforce
  obtain scored h4 where s4: "array_map_h calculateTotalBenefit_h (Ref r3) h3 = (scored, h4)"
    by (cases "array_map_h calculateTotalBenefit_h (Ref r3) h3")
  have u4': "unchanged_below (length h3) h3 h4"
    using array_map_h_unchanged [OF allocates_calculateTotalBenefit_h s4] by blast
  have u4: "unchanged_below ?n h3 h4" using u4' n3 by (rule unchanged_below_mono)
  have n4: "?n \<le> length h4" using u4' n3 unchanged_below_le by fastforce
  obtain filtered h5 where
    s5: "array_filter_h (filterByWeight_h maximumWeight) scored h4 = (filtered, h5)"
    by (cases "array_filter_h (filterByWeight_h maximumWeight) scored h4")
  have u5': "unchanged_below (length h4) h4 h5"
    and a5: "\<exists>r. filtered = Ref r \<and> length h4 \<le> r \<and> r < length h5"
    using array_filter_h_unchanged [OF s5] by blast+
  have u5: "unchanged_below ?n h4 h5" using u5' n4 by (rule unchanged_below_mono)
  obtain results h6 where s6: "array_sort_h sortByTotalBenefit_h filtered h5 = (results, h6)"
    by (cases "array_sort_h sortByTotalBenefit_h filtered h5")
  have u6: "unchanged_below ?n h5 h6" and l6: "length h6 = length h5"
    using array_sort_h_unchanged [OF s6, of ?n] a5 n4 by auto
  have n6: "?n \<le> length h6" using u5' n4 l6 unchanged_below_le by fastforce
  have u06: "unchanged_below ?n h h6"
    using u1 u2 u3 u4 u5 u6 unchanged_below_trans by blast
  show ?thesis
  proof (cases "slot (deref h6 results) 0")
    case (Ref r0)
    obtain sliced h7 where s7: "slice_h 2 (Ref r0) h6 = (sliced, h7)"
      by (cases "slice_h 2 (Ref r0) h6")
    have u7': "unchanged_below (length h6) h6 h7" using slice_h_unchanged [OF s7] by blast
    have u7: "unchanged_below ?n h6 h7" using u7' n6 by (rule unchanged_below_mono)
    have n7: "?n \<le> length h7" using u7' n6 unchanged_below_le by fastforce
    obtain winner h8 where s8: "array_map_h (slice_h 1) sliced h7 = (winner, h8)"
      by (cases "array_map_h (slice_h 1) sliced h7")
    have u8': "unchanged_below (length h7) h7 h8"
      using array_map_h_unchanged [OF allocates_slice_h s8] by blast
    have u8: "unchanged_below ?n h7 h8" using u8' n7 by (rule unchanged_below_mono)
    have "knapsack_h items maximumWeight h = Some (Inr winner, h8)"
      using s1 s2 s3 s4 s5 s6 s7 s8 Ref by (simp add: knapsack_h_def)
    moreover have "unchanged_below ?n h h8" using u06 u7 u8 unchanged_below_trans by blast
    ultimately show ?thesis by blast
  next
    case (Num x)
    then have "knapsack_h items maximumWeight h = Some (Inl TypeError, h6)"
      using s1 s2 s3 s4 s5 s6 by (simp add: knapsack_h_def)
    then show ?thesis using u06 by blast
  next
    case Undefined
    then have "knapsack_h items maximumWeight h = Some (Inl TypeError, h6)"
      using s1 s2 s3 s4 s5 s6 by (simp add: knapsack_h_def)
    then show ?thesis using u06 by blast
  qed
qed

lemma wf_items_unchanged:
  assumes wf: "wf_items h items" and u: "unchanged_below (length h) h h'"
  shows "deref h' items = deref h items"
    and "\<forall>v\<in>set (deref h items). deref h' v = deref h v"
    and "read_items h' items = read_items h items"
proof -
  obtain r where r: "items = Ref r" "r < length h" "list_all (is_pair h) (h ! r)"
    using wf by (cases items) auto
  have le: "length h \<le> length h'" and same: "\<forall>a<length h. h' ! a = h ! a"
    using u by (simp_all add: unchanged_below_def)
  show d: "deref h' items = deref h items" using r le same by simp
  show e: "\<forall>v\<in>set (deref h items). deref h' v = deref h v"
  proof
    fix v assume "v \<in> set (deref h items)"
    then have "is_pair h v" using r by (simp add: list_all_iff)
    then obtain q where "v = Ref q" "q < length h" by (cases v) auto
    then show "deref h' v = deref h v" using le same by simp
  qed
  show "read_items h' items = read_items h items"
    unfolding read_items_def d using e by simp
qed

section \<open>The store program and the functional model\<close>

lemma read_items_item_of: "read_items h items = map (\<lambda>v. item_of (deref h v)) (deref h items)"
  by (simp add: read_items_def item_of_def)

lemma slot_Cons_Suc: "slot (x # a) (Suc i) = slot a i"
  by (simp add: slot_def)

lemma slot_Cons_0: "slot (x # a) 0 = x"
  by (simp add: slot_def)

lemma map_slot: "map (slot a) [0..<length a] = a"
proof -
  have "map (slot a) [0..<length a] = map ((!) a) [0..<length a]"
    by (rule map_cong) (simp_all add: slot_def)
  then show ?thesis by (simp add: map_nth)
qed

lemma deref_append: "ref_below (length h) v \<Longrightarrow> deref (h @ zs) v = deref h v"
  by (auto simp: ref_below_def nth_append)

lemma deref_unchanged:
  "unchanged_below n h h' \<Longrightarrow> ref_below n v \<Longrightarrow> n \<le> length h \<Longrightarrow> deref h' v = deref h v"
  by (auto simp: ref_below_def unchanged_below_def)

lemma ref_below_mono: "ref_below n v \<Longrightarrow> n \<le> m \<Longrightarrow> ref_below m v"
  by (auto simp: ref_below_def)

lemma array_sort_map:
  assumes "\<And>a b. cmp' a b = cmp (f a) (f b)"
  shows "map f (array_sort cmp' xs) = array_sort cmp (map f xs)"
proof -
  have ins: "map f (sort_insert cmp' x ys) = sort_insert cmp (f x) (map f ys)" for x ys
    by (induction ys) (simp_all add: assms)
  show ?thesis by (induction xs) (simp_all add: ins)
qed

lemma subseqs_map: "subseqs (map f xs) = map (map f) (subseqs xs)"
  by (induction xs) (simp_all add: Let_def comp_def)

text \<open>\<open>map\<close> with a callback that allocates one array, whose contents \<open>g\<close> computes.\<close>

lemma map_loop_alloc:
  assumes f: "\<And>v h. f v h = (Ref (length h), h @ [g h v])"
    and st: "\<And>k zs. k \<in> set ks \<Longrightarrow> g (h @ zs) (slot (deref h arr) k) = g h (slot (deref h arr) k)"
    and arr: "\<And>zs. deref (h @ zs) arr = deref h arr"
  shows "map_loop f arr ks (h @ zs)
         = (map Ref [length h + length zs..<length h + length zs + length ks],
            h @ zs @ map (\<lambda>k. g h (slot (deref h arr) k)) ks)"
  using st
proof (induction ks arbitrary: zs)
  case Nil
  show ?case by simp
next
  case (Cons k ks)
  let ?y = "g h (slot (deref h arr) k)"
  have step: "f (slot (deref (h @ zs) arr) k) (h @ zs) = (Ref (length h + length zs), h @ (zs @ [?y]))"
    using f [of "slot (deref h arr) k" "h @ zs"] Cons.prems [of k zs] by (simp add: arr)
  have rest: "map_loop f arr ks (h @ (zs @ [?y]))
      = (map Ref [length h + length (zs @ [?y])..<length h + length (zs @ [?y]) + length ks],
         h @ (zs @ [?y]) @ map (\<lambda>k. g h (slot (deref h arr) k)) ks)"
    by (rule Cons.IH) (use Cons.prems in simp)
  have up: "[length h + length zs..<length h + length zs + length (k # ks)]
      = (length h + length zs) # [length h + length (zs @ [?y])..<length h + length (zs @ [?y]) + length ks]"
    by (simp add: upt_rec)
  show ?case
    unfolding map_loop.simps step up using rest by simp
qed

lemma array_map_h_alloc:
  assumes f: "\<And>v h. f v h = (Ref (length h), h @ [g h v])"
    and st: "\<And>v zs. v \<in> set (deref h arr) \<Longrightarrow> g (h @ zs) v = g h v"
    and arr: "\<And>zs. deref (h @ zs) arr = deref h arr"
  shows "array_map_h f arr h
         = (Ref (length h + length (deref h arr)),
            h @ map (g h) (deref h arr)
              @ [map Ref [length h..<length h + length (deref h arr)]])"
proof -
  let ?a = "deref h arr"
  have "map_loop f arr [0..<length ?a] (h @ [])
      = (map Ref [length h + length ([] :: heap)..<length h + length ([] :: heap)
                    + length [0..<length ?a]],
         h @ [] @ map (\<lambda>k. g h (slot ?a k)) [0..<length ?a])"
  proof (rule map_loop_alloc [where g = g])
    fix v h show "f v h = (Ref (length h), h @ [g h v])" by (rule f)
  next
    fix k zs assume "k \<in> set [0..<length ?a]"
    then show "g (h @ zs) (slot ?a k) = g h (slot ?a k)" using st by (simp add: slot_def)
  next
    fix zs show "deref (h @ zs) arr = deref h arr" by (rule arr)
  qed
  then have "map_loop f arr [0..<length ?a] h
      = (map Ref [length h..<length h + length ?a], h @ map (\<lambda>k. g h (slot ?a k)) [0..<length ?a])"
    by simp
  moreover have "map (\<lambda>k. g h (slot ?a k)) [0..<length ?a] = map (g h) ?a"
  proof -
    have "map (\<lambda>k. g h (slot ?a k)) [0..<length ?a]
        = map (g h) (map (slot ?a) [0..<length ?a])"
      by (simp add: comp_def)
    then show ?thesis by (simp only: map_slot)
  qed
  ultimately show ?thesis by (simp add: array_map_h_def alloc_def)
qed

lemma array_map_h_reads:
  assumes f: "\<And>v h. f v h = (Ref (length h), h @ [g h v])"
    and st: "\<And>v zs. v \<in> set (deref h arr) \<Longrightarrow> g (h @ zs) v = g h v"
    and arr: "ref_below (length h) arr"
    and run: "array_map_h f arr h = (res, h')"
  shows "res = Ref (length h + length (deref h arr))"
    and "length h' = Suc (length h + length (deref h arr))"
    and "deref h' res = map Ref [length h..<length h + length (deref h arr)]"
    and "map (deref h') (deref h' res) = map (g h) (deref h arr)"
proof -
  let ?a = "deref h arr"
  let ?n = "length ?a"
  have "array_map_h f arr h
      = (Ref (length h + ?n), h @ map (g h) ?a @ [map Ref [length h..<length h + ?n]])"
  proof (rule array_map_h_alloc [where g = g])
    fix v h show "f v h = (Ref (length h), h @ [g h v])" by (rule f)
  next
    fix v zs assume "v \<in> set ?a" then show "g (h @ zs) v = g h v" by (rule st)
  next
    fix zs show "deref (h @ zs) arr = deref h arr" using arr by (rule deref_append)
  qed
  then have r: "res = Ref (length h + ?n)"
    and h': "h' = h @ map (g h) ?a @ [map Ref [length h..<length h + ?n]]"
    using run by simp_all
  show "res = Ref (length h + ?n)" by (rule r)
  show len: "length h' = Suc (length h + ?n)" by (simp add: h')
  show d: "deref h' res = map Ref [length h..<length h + ?n]"
    unfolding r h' by (simp add: nth_append)
  have "deref h' (Ref q) = g h (?a ! (q - length h))"
    if q: "length h \<le> q" "q < length h + ?n" for q
  proof -
    have "q - length h < ?n" using q by arith
    then show ?thesis using q unfolding h' by (simp add: nth_append)
  qed
  then have "map (deref h') (map Ref [length h..<length h + ?n])
      = map (\<lambda>q. g h (?a ! (q - length h))) [length h..<length h + ?n]"
    by (simp add: comp_def)
  also have "\<dots> = map (\<lambda>k. g h (?a ! k)) [0..<?n]"
  proof -
    have "[length h..<length h + ?n] = map (\<lambda>k. k + length h) [0..<?n]"
      using map_add_upt [of "length h" ?n] by (simp add: add.commute)
    then show ?thesis by (simp add: comp_def)
  qed
  also have "\<dots> = map (g h) ?a"
  proof -
    have "map (\<lambda>k. g h (?a ! k)) [0..<?n] = map (g h) (map ((!) ?a) [0..<?n])"
      by (simp add: comp_def)
    then show ?thesis by (simp only: map_nth)
  qed
  finally show "map (deref h') (deref h' res) = map (g h) ?a" unfolding d .
qed

lemma map_append_subseqs:
  "map ((@) L) (subseqs (x # xs))
     = map ((@) (L @ [x])) (subseqs xs) @ map ((@) L) (subseqs xs)"
  by (simp add: Let_def comp_def)

text \<open>
  What \<open>permute\<close> pushes: references to arrays that hold \<open>left\<close> followed by each
  subsequence of \<open>right\<close>, in the order of \<open>subseqs\<close>.
\<close>

lemma permute_h_spec:
  assumes run: "permute_h fuel left right result h = Some h'"
    and res: "result < length h"
    and left: "ref_below (length h) left" "left \<noteq> Ref result"
    and right: "right \<noteq> Ref result"
  shows "\<exists>new. h' ! result = h ! result @ new
           \<and> map (deref h') new = map ((@) (deref h left)) (subseqs (deref h right))
           \<and> (\<forall>c\<in>set new. ref_below (length h') c \<and> c \<noteq> Ref result)"
  using assms
proof (induction fuel arbitrary: left right h h')
  case 0
  then show ?case by simp
next
  case (Suc fuel)
  note res = Suc.prems(2) and left = Suc.prems(3,4) and right = Suc.prems(5)
  obtain l where l: "left = Ref l" "l < length h" "l \<noteq> result"
    using left by (auto simp: ref_below_def)
  show ?case
  proof (cases "deref h right")
    case Nil
    then have h': "h' = h[result := h ! result @ [left]]" using Suc.prems(1) by simp
    have "h' ! result = h ! result @ [left]" using res by (simp add: h')
    moreover have "deref h' left = deref h left" using l by (simp add: h')
    moreover have "ref_below (length h') left" using l by (simp add: h' ref_below_def)
    ultimately have "h' ! result = h ! result @ [left]
        \<and> map (deref h') [left] = map ((@) (deref h left)) (subseqs (deref h right))
        \<and> (\<forall>c\<in>set [left]. ref_below (length h') c \<and> c \<noteq> Ref result)"
      using Nil left by simp
    then show ?thesis by blast
  next
    case (Cons x xs)
    then obtain r where r: "right = Ref r" "r < length h" "r \<noteq> result"
      using right by (cases right) (auto split: if_splits)
    define L where "L = deref h left"
    define h1 where "h1 = h @ [L @ [x]]"
    define h2 where "h2 = h1 @ [xs]"
    have len1: "length h1 = Suc (length h)" and len2: "length h2 = Suc (Suc (length h))"
      by (simp_all add: h1_def h2_def)
    have d1: "deref h1 right = x # xs" using r Cons by (simp add: h1_def nth_append)
    have sl0: "slot (deref h right) 0 = x" using Cons by (simp add: slot_def)
    obtain h3 where run1: "permute_h fuel (Ref (length h)) (Ref (length h1)) result h2 = Some h3"
      and run2': "(case slice_h 1 right h3 of (s2, h4) \<Rightarrow> permute_h fuel left s2 result h4) = Some h'"
      using Suc.prems(1) Cons d1 sl0
      by (auto simp: alloc_def slice_h_def Let_def L_def h1_def h2_def split: option.splits)
    have w1: "length h2 \<le> length h3"
      and k1: "\<forall>a<length h2. a \<noteq> result \<longrightarrow> h3 ! a = h2 ! a"
      using permute_h_writes [OF run1] by blast+
    have r3: "h3 ! r = h ! r" using k1 r len2 by (simp add: h2_def h1_def nth_append)
    have d3: "deref h3 right = x # xs" using r r3 w1 len2 Cons by simp
    define h4 where "h4 = h3 @ [xs]"
    have run2: "permute_h fuel left (Ref (length h3)) result h4 = Some h'"
      using run2' d3 by (simp add: slice_h_def alloc_def h4_def)
    have w2: "length h4 \<le> length h'"
      and k2: "\<forall>a<length h4. a \<noteq> result \<longrightarrow> h' ! a = h4 ! a"
      using permute_h_writes [OF run2] by blast+
    have len4: "length h4 = Suc (length h3)" by (simp add: h4_def)
    \<comment> \<open>the first call\<close>
    have "\<exists>new. h3 ! result = h2 ! result @ new
           \<and> map (deref h3) new
               = map ((@) (deref h2 (Ref (length h)))) (subseqs (deref h2 (Ref (length h1))))
           \<and> (\<forall>c\<in>set new. ref_below (length h3) c \<and> c \<noteq> Ref result)"
    proof (rule Suc.IH [OF run1])
      show "result < length h2" using res len2 by simp
      show "ref_below (length h2) (Ref (length h))" by (simp add: ref_below_def len2)
      show "Ref (length h) \<noteq> Ref result" using res by simp
      show "Ref (length h1) \<noteq> Ref result" using res len1 by simp
    qed
    then obtain new1 where n1: "h3 ! result = h2 ! result @ new1"
      and m1: "map (deref h3) new1
               = map ((@) (deref h2 (Ref (length h)))) (subseqs (deref h2 (Ref (length h1))))"
      and v1: "\<forall>c\<in>set new1. ref_below (length h3) c \<and> c \<noteq> Ref result"
      by blast
    have e1: "deref h2 (Ref (length h)) = L @ [x]"
      by (simp add: h2_def h1_def nth_append)
    have e2: "deref h2 (Ref (length h1)) = xs"
      by (simp add: h2_def)
    \<comment> \<open>the second call\<close>
    have "\<exists>new. h' ! result = h4 ! result @ new
           \<and> map (deref h') new
               = map ((@) (deref h4 left)) (subseqs (deref h4 (Ref (length h3))))
           \<and> (\<forall>c\<in>set new. ref_below (length h') c \<and> c \<noteq> Ref result)"
    proof (rule Suc.IH [OF run2])
      show "result < length h4" using res w1 len2 len4 by simp
      show "ref_below (length h4) left" using l w1 len2 len4 by (simp add: ref_below_def)
      show "left \<noteq> Ref result" by (rule left(2))
      show "Ref (length h3) \<noteq> Ref result" using res w1 len2 by simp
    qed
    then obtain new2 where n2: "h' ! result = h4 ! result @ new2"
      and m2: "map (deref h') new2
               = map ((@) (deref h4 left)) (subseqs (deref h4 (Ref (length h3))))"
      and v2: "\<forall>c\<in>set new2. ref_below (length h') c \<and> c \<noteq> Ref result"
      by blast
    have l3: "h3 ! l = h ! l" using k1 l len2 by (simp add: h2_def h1_def nth_append)
    have e3: "deref h4 left = L"
      using l l3 w1 len2 by (simp add: h4_def L_def nth_append)
    have e4: "deref h4 (Ref (length h3)) = xs" by (simp add: h4_def)
    have res4: "h4 ! result = h3 ! result" using res w1 len2 by (simp add: h4_def nth_append)
    have res2: "h2 ! result = h ! result" using res by (simp add: h2_def h1_def nth_append)
    have keep: "deref h' c = deref h3 c" if c: "c \<in> set new1" for c
    proof -
      obtain q where q: "c = Ref q" "q < length h3" "q \<noteq> result"
        using v1 c by (auto simp: ref_below_def)
      have "h' ! q = h4 ! q" using k2 q len4 by simp
      then show ?thesis using q w2 len4 by (simp add: h4_def nth_append)
    qed
    have "h' ! result = h ! result @ (new1 @ new2)" using n2 res4 n1 res2 by simp
    moreover have "map (deref h') (new1 @ new2)
        = map ((@) (deref h left)) (subseqs (deref h right))"
    proof -
      have k: "map (deref h') new1 = map (deref h3) new1" using keep by simp
      have m1': "map (deref h3) new1 = map ((@) (L @ [x])) (subseqs xs)"
        using m1 unfolding e1 e2 .
      have m2': "map (deref h') new2 = map ((@) L) (subseqs xs)"
        using m2 unfolding e3 e4 .
      have "map (deref h') (new1 @ new2)
          = map ((@) (L @ [x])) (subseqs xs) @ map ((@) L) (subseqs xs)"
        unfolding map_append k m1' m2' by (rule refl)
      then show ?thesis unfolding Cons L_def [symmetric] map_append_subseqs .
    qed
    moreover have "\<forall>c\<in>set (new1 @ new2). ref_below (length h') c \<and> c \<noteq> Ref result"
      using v1 v2 w2 len4 by (auto intro: ref_below_mono)
    ultimately show ?thesis by blast
  qed
qed

lemma is_pair_ref: "is_pair h v \<Longrightarrow> ref_below (length h) v"
  by (cases v) (auto simp: ref_below_def)

lemma wf_itemsD:
  assumes "wf_items h items"
  shows "ref_below (length h) items" and "\<forall>v\<in>set (deref h items). ref_below (length h) v"
proof -
  obtain r where r: "items = Ref r" "r < length h" "list_all (is_pair h) (h ! r)"
    using assms by (cases items) auto
  show "ref_below (length h) items" using r by (simp add: ref_below_def)
  show "\<forall>v\<in>set (deref h items). ref_below (length h) v"
    using r is_pair_ref by (auto simp: list_all_iff)
qed

lemma annotated_of_calculateBenefit:
  "annotated_of (Num (js_div (to_num (slot a (Suc 0))) (to_num (slot a 0))) # a)
     = calculateBenefit (item_of a)"
  by (simp add: annotated_of_def item_of_def slot_def)

text \<open>The lines of \<^verbatim>\<open>knapsack\<close>, one lemma each.\<close>

lemma annotate_h:
  assumes wf: "wf_items h items"
    and run: "array_map_h calculateBenefit_h items h = (annotated, h1)"
  shows "\<exists>r1. annotated = Ref r1 \<and> length h1 = Suc r1
           \<and> (\<forall>v\<in>set (deref h1 annotated). ref_below r1 v)
           \<and> map (\<lambda>v. annotated_of (deref h1 v)) (deref h1 annotated)
               = map calculateBenefit (read_items h items)"
proof -
  define g where
    "g = (\<lambda>h v. Num (js_div (to_num (slot (deref h v) 1)) (to_num (slot (deref h v) 0)))
                 # deref h v)"
  let ?n = "length (deref h items)"
  let ?r1 = "length h + ?n"
  have f: "calculateBenefit_h v h = (Ref (length h), h @ [g h v])" for v h
    by (simp add: calculateBenefit_h_def alloc_def g_def Let_def)
  have st: "g (h @ zs) v = g h v" if "v \<in> set (deref h items)" for v zs
    using wf_itemsD(2) [OF wf] that by (simp add: g_def deref_append)
  note facts = array_map_h_reads [where g = g, OF f st wf_itemsD(1) [OF wf] run]
  have a: "annotated = Ref ?r1" and len: "length h1 = Suc ?r1"
    and d: "deref h1 annotated = map Ref [length h..<?r1]"
    and m: "map (deref h1) (deref h1 annotated) = map (g h) (deref h items)"
    using facts by blast+
  have below: "\<forall>v\<in>set (deref h1 annotated). ref_below ?r1 v"
    unfolding d by (auto simp: ref_below_def)
  have "map (\<lambda>v. annotated_of (deref h1 v)) (deref h1 annotated)
      = map annotated_of (map (deref h1) (deref h1 annotated))"
    by (simp add: comp_def)
  also have "\<dots> = map annotated_of (map (g h) (deref h items))" by (simp only: m)
  also have "\<dots> = map calculateBenefit (read_items h items)"
    by (simp add: read_items_item_of comp_def g_def annotated_of_calculateBenefit)
  finally show ?thesis using a len below by blast
qed

lemma sortByBenefit_h_reads:
  "sortByBenefit_h h a b = sortByBenefit (annotated_of (deref h a)) (annotated_of (deref h b))"
  by (simp add: sortByBenefit_h_def annotated_of_def)

lemma sort_annotated_h:
  assumes a: "annotated = Ref r1" and len: "length h1 = Suc r1"
    and below: "\<forall>v\<in>set (deref h1 annotated). ref_below r1 v"
    and run: "array_sort_h sortByBenefit_h annotated h1 = (srt, h2)"
  shows "srt = Ref r1 \<and> length h2 = Suc r1
         \<and> (\<forall>v\<in>set (deref h2 srt). ref_below r1 v)
         \<and> map (\<lambda>v. annotated_of (deref h2 v)) (deref h2 srt)
             = array_sort sortByBenefit
                 (map (\<lambda>v. annotated_of (deref h1 v)) (deref h1 annotated))"
proof -
  define srefs where "srefs = array_sort (sortByBenefit_h h1) (deref h1 annotated)"
  have s: "srt = Ref r1" and h2: "h2 = h1[r1 := srefs]"
    using run unfolding a srefs_def by auto
  have len2: "length h2 = Suc r1" by (simp add: h2 len)
  have d2: "deref h2 srt = srefs" by (simp add: s h2 len)
  have below2: "\<forall>v\<in>set srefs. ref_below r1 v"
    using below by (simp add: srefs_def set_array_sort)
  have same: "deref h2 v = deref h1 v" if "ref_below r1 v" for v
    using that by (auto simp: ref_below_def h2)
  have "map (\<lambda>v. annotated_of (deref h2 v)) srefs = map (\<lambda>v. annotated_of (deref h1 v)) srefs"
    by (rule map_cong) (use below2 same in auto)
  also have "\<dots> = array_sort sortByBenefit
                     (map (\<lambda>v. annotated_of (deref h1 v)) (deref h1 annotated))"
    unfolding srefs_def by (rule array_sort_map) (rule sortByBenefit_h_reads)
  finally show ?thesis using s len2 below2 d2 by simp
qed

lemma combinations_h:
  assumes s: "srt = Ref r1" and len: "length h2 = Suc r1"
    and below: "\<forall>v\<in>set (deref h2 srt). ref_below r1 v"
    and run: "sortedCombinations_h srt h2 = Some (combos, h3)"
  shows "ref_below (length h3) combos \<and> Suc r1 \<le> length h3
         \<and> (\<forall>c\<in>set (deref h3 combos).
               ref_below (length h3) c \<and> (\<forall>v\<in>set (deref h3 c). ref_below r1 v))
         \<and> map (\<lambda>c. map (\<lambda>v. annotated_of (deref h3 v)) (deref h3 c)) (deref h3 combos)
             = sortedCombinations (map (\<lambda>v. annotated_of (deref h2 v)) (deref h2 srt))"
proof -
  define srefs where "srefs = deref h2 srt"
  define h2a where "h2a = (h2 @ [[]]) @ [[]]"
  have lena: "length h2a = Suc (Suc (length h2))" by (simp add: h2a_def)
  have c: "combos = Ref (length h2)"
    and p: "permute_h (Suc (length (deref h2a srt))) (Ref (Suc (length h2))) srt
              (length h2) h2a = Some h3"
    using run
    by (auto simp: sortedCombinations_h_def alloc_def h2a_def split: option.splits
        simp del: permute_h.simps)
  have dsa: "deref h2a srt = srefs"
    using s len by (simp add: h2a_def srefs_def nth_append)
  have "\<exists>new. h3 ! length h2 = h2a ! length h2 @ new
           \<and> map (deref h3) new
               = map ((@) (deref h2a (Ref (Suc (length h2))))) (subseqs (deref h2a srt))
           \<and> (\<forall>c\<in>set new. ref_below (length h3) c \<and> c \<noteq> Ref (length h2))"
  proof (rule permute_h_spec [OF p])
    show "length h2 < length h2a" by (simp add: lena)
    show "ref_below (length h2a) (Ref (Suc (length h2)))" by (simp add: ref_below_def lena)
    show "Ref (Suc (length h2)) \<noteq> Ref (length h2)" by simp
    show "srt \<noteq> Ref (length h2)" using s len by simp
  qed
  then obtain new where n: "h3 ! length h2 = h2a ! length h2 @ new"
    and m: "map (deref h3) new
              = map ((@) (deref h2a (Ref (Suc (length h2))))) (subseqs (deref h2a srt))"
    and v: "\<forall>c\<in>set new. ref_below (length h3) c \<and> c \<noteq> Ref (length h2)"
    by blast
  have w: "length h2a \<le> length h3"
    and k: "\<forall>a<length h2a. a \<noteq> length h2 \<longrightarrow> h3 ! a = h2a ! a"
    using permute_h_writes [OF p] by blast+
  have e0: "h2a ! length h2 = []" by (simp add: h2a_def nth_append)
  have e1: "deref h2a (Ref (Suc (length h2))) = []" by (simp add: h2a_def nth_append)
  have nil: "(@) [] = (\<lambda>ys :: val list. ys)" by (rule ext) simp
  have m': "map (deref h3) new = subseqs srefs" using m unfolding e1 dsa nil by simp
  have dc: "deref h3 combos = new" using n e0 w lena by (simp add: c)
  have cb: "ref_below (length h3) combos" using w lena by (simp add: c ref_below_def)
  have same: "deref h3 v = deref h2 v" if rb: "ref_below r1 v" for v
  proof -
    obtain q where q: "v = Ref q" "q < r1" using rb by (auto simp: ref_below_def)
    have "h3 ! q = h2a ! q" using k q len lena by simp
    then show ?thesis using q len w lena by (simp add: h2a_def nth_append)
  qed
  have elems: "\<forall>v\<in>set (deref h3 c). ref_below r1 v" if "c \<in> set new" for c
  proof -
    have "deref h3 c \<in> set (map (deref h3) new)" using that by simp
    then have sub: "subseq (deref h3 c) srefs" unfolding m' by (simp add: set_subseqs_eq)
    have "set (deref h3 c) \<subseteq> set srefs"
    proof
      fix x assume "x \<in> set (deref h3 c)"
      then show "x \<in> set srefs" using list_emb_set [OF sub] by auto
    qed
    then show ?thesis using below by (auto simp: srefs_def)
  qed
  have "map (\<lambda>c. map (\<lambda>v. annotated_of (deref h3 v)) (deref h3 c)) new
      = map (map (\<lambda>v. annotated_of (deref h3 v))) (map (deref h3) new)"
    by (simp add: comp_def)
  also have "\<dots> = map (map (\<lambda>v. annotated_of (deref h3 v))) (subseqs srefs)"
    by (simp only: m')
  also have "\<dots> = subseqs (map (\<lambda>v. annotated_of (deref h3 v)) srefs)"
    by (simp only: subseqs_map)
  also have "map (\<lambda>v. annotated_of (deref h3 v)) srefs
      = map (\<lambda>v. annotated_of (deref h2 v)) srefs"
    by (rule map_cong) (use below same in \<open>auto simp: srefs_def\<close>)
  finally have "map (\<lambda>c. map (\<lambda>v. annotated_of (deref h3 v)) (deref h3 c)) (deref h3 combos)
      = sortedCombinations (map (\<lambda>v. annotated_of (deref h2 v)) (deref h2 srt))"
    unfolding dc by (simp add: sortedCombinations_subseqs srefs_def)
  moreover have "Suc r1 \<le> length h3" using w lena len by simp
  moreover have "\<forall>c\<in>set (deref h3 combos).
      ref_below (length h3) c \<and> (\<forall>v\<in>set (deref h3 c). ref_below r1 v)"
    unfolding dc using v elems by blast
  ultimately show ?thesis using cb by blast
qed

lemma scored_of_cong:
  "(\<And>v. v \<in> set (drop 2 a) \<Longrightarrow> deref h' v = deref h v) \<Longrightarrow> scored_of h' a = scored_of h a"
  by (simp add: scored_of_def cong: map_cong)

lemma foldl_js_add_cong:
  "(\<And>x. x \<in> set xs \<Longrightarrow> p x = q x)
   \<Longrightarrow> foldl (\<lambda>total current. js_add total (p current)) z xs
       = foldl (\<lambda>total current. js_add total (q current)) z xs"
  by (induction xs arbitrary: z) simp_all

lemma scored_of_calculateTotalBenefit:
  "scored_of h
     (Num (foldl (\<lambda>total current. js_add total (to_num (slot (deref h current) 0))) (Fin 0) a)
      # Num (foldl (\<lambda>total current. js_add total (to_num (slot (deref h current) (Suc 0)))) (Fin 0) a)
      # a)
   = calculateTotalBenefit (map (\<lambda>v. annotated_of (deref h v)) a)"
  by (simp add: scored_of_def calculateTotalBenefit_def foldl_map annotated_of_def slot_def)

lemma score_h:
  assumes cb: "ref_below (length h3) combos" and b: "Suc r1 \<le> length h3"
    and inv: "\<forall>c\<in>set (deref h3 combos).
                ref_below (length h3) c \<and> (\<forall>v\<in>set (deref h3 c). ref_below r1 v)"
    and run: "array_map_h calculateTotalBenefit_h combos h3 = (scored, h4)"
  shows "\<exists>r4. scored = Ref r4 \<and> length h4 = Suc r4 \<and> Suc r1 \<le> r4
           \<and> (\<forall>s\<in>set (deref h4 scored).
                 ref_below r4 s \<and> (\<forall>v\<in>set (drop 2 (deref h4 s)). ref_below r1 v))
           \<and> map (\<lambda>s. scored_of h4 (deref h4 s)) (deref h4 scored)
               = map calculateTotalBenefit
                   (map (\<lambda>c. map (\<lambda>v. annotated_of (deref h3 v)) (deref h3 c))
                      (deref h3 combos))"
proof -
  define g where
    "g = (\<lambda>h item.
           Num (foldl (\<lambda>total current. js_add total (to_num (slot (deref h current) 0)))
                  (Fin 0) (deref h item))
           # Num (foldl (\<lambda>total current. js_add total (to_num (slot (deref h current) (Suc 0))))
                    (Fin 0) (deref h item))
           # deref h item)"
  let ?cs = "deref h3 combos"
  let ?r4 = "length h3 + length ?cs"
  have f: "calculateTotalBenefit_h v h = (Ref (length h), h @ [g h v])" for v h
    by (simp add: calculateTotalBenefit_h_def alloc_def g_def Let_def)
  have st: "g (h3 @ zs) c = g h3 c" if c: "c \<in> set ?cs" for c zs
  proof -
    have dc: "deref (h3 @ zs) c = deref h3 c" using inv c by (simp add: deref_append)
    have dv: "deref (h3 @ zs) v = deref h3 v" if "v \<in> set (deref h3 c)" for v
    proof -
      have "ref_below r1 v" using inv c that by blast
      then have "ref_below (length h3) v" using b by (auto simp: ref_below_def)
      then show ?thesis by (rule deref_append)
    qed
    show ?thesis
      unfolding g_def dc
      using foldl_js_add_cong [of "deref h3 c"
          "\<lambda>v. to_num (slot (deref (h3 @ zs) v) 0)" "\<lambda>v. to_num (slot (deref h3 v) 0)"]
        foldl_js_add_cong [of "deref h3 c"
          "\<lambda>v. to_num (slot (deref (h3 @ zs) v) (Suc 0))" "\<lambda>v. to_num (slot (deref h3 v) (Suc 0))"]
        dv
      by simp
  qed
  note facts = array_map_h_reads [where g = g, OF f st cb run]
  have a: "scored = Ref ?r4" and len: "length h4 = Suc ?r4"
    and d: "deref h4 scored = map Ref [length h3..<?r4]"
    and m: "map (deref h4) (deref h4 scored) = map (g h3) ?cs"
    using facts by blast+
  have u: "unchanged_below (length h3) h3 h4"
    by (rule array_map_h_unchanged(1) [OF allocates_calculateTotalBenefit_h run])
  have same: "deref h4 v = deref h3 v" if rb: "ref_below r1 v" for v
  proof -
    have "ref_below (length h3) v" using rb b by (auto simp: ref_below_def)
    then show ?thesis using deref_unchanged [OF u _ order_refl] by blast
  qed
  have img: "\<exists>c\<in>set ?cs. deref h4 s = g h3 c" if "s \<in> set (deref h4 scored)" for s
  proof -
    have "deref h4 s \<in> set (map (deref h4) (deref h4 scored))" using that by simp
    then show ?thesis unfolding m by auto
  qed
  have inv4: "\<forall>s\<in>set (deref h4 scored).
      ref_below ?r4 s \<and> (\<forall>v\<in>set (drop 2 (deref h4 s)). ref_below r1 v)"
  proof
    fix s assume s: "s \<in> set (deref h4 scored)"
    then have "ref_below ?r4 s" unfolding d by (auto simp: ref_below_def)
    moreover obtain c where "c \<in> set ?cs" "deref h4 s = g h3 c" using img [OF s] by blast
    then have "\<forall>v\<in>set (drop 2 (deref h4 s)). ref_below r1 v" using inv by (simp add: g_def)
    ultimately show "ref_below ?r4 s \<and> (\<forall>v\<in>set (drop 2 (deref h4 s)). ref_below r1 v)"
      by blast
  qed
  have one: "scored_of h4 (g h3 c)
      = calculateTotalBenefit (map (\<lambda>v. annotated_of (deref h3 v)) (deref h3 c))"
    if c: "c \<in> set ?cs" for c
  proof -
    have "scored_of h4 (g h3 c) = scored_of h3 (g h3 c)"
      by (rule scored_of_cong) (use inv c same in \<open>simp add: g_def\<close>)
    then show ?thesis by (simp add: g_def scored_of_calculateTotalBenefit)
  qed
  have "map (\<lambda>s. scored_of h4 (deref h4 s)) (deref h4 scored)
      = map (scored_of h4) (map (deref h4) (deref h4 scored))"
    by (simp add: comp_def)
  also have "\<dots> = map (scored_of h4) (map (g h3) ?cs)" by (simp only: m)
  also have "\<dots> = map calculateTotalBenefit
                     (map (\<lambda>c. map (\<lambda>v. annotated_of (deref h3 v)) (deref h3 c)) ?cs)"
    using one by (simp add: comp_def)
  finally show ?thesis using a len inv4 b by auto
qed

lemma filterByWeight_h_reads:
  "filterByWeight_h cap h s = filterByWeight cap (scored_of h (deref h s))"
  by (simp add: filterByWeight_h_def filterByWeight_def scored_of_def)

lemma sortByTotalBenefit_h_reads:
  "sortByTotalBenefit_h h a b
     = sortByTotalBenefit (scored_of h (deref h a)) (scored_of h (deref h b))"
  by (simp add: sortByTotalBenefit_h_def sortByTotalBenefit_def scored_of_def)

lemma filter_h:
  assumes sc: "scored = Ref r4" and len: "length h4 = Suc r4" and b: "Suc r1 \<le> r4"
    and inv: "\<forall>s\<in>set (deref h4 scored).
                ref_below r4 s \<and> (\<forall>v\<in>set (drop 2 (deref h4 s)). ref_below r1 v)"
    and run: "array_filter_h (filterByWeight_h cap) scored h4 = (filtered, h5)"
  shows "filtered = Ref (Suc r4) \<and> length h5 = Suc (Suc r4)
         \<and> (\<forall>s\<in>set (deref h5 filtered).
               ref_below r4 s \<and> (\<forall>v\<in>set (drop 2 (deref h5 s)). ref_below r1 v))
         \<and> map (\<lambda>s. scored_of h5 (deref h5 s)) (deref h5 filtered)
             = filter (filterByWeight cap)
                 (map (\<lambda>s. scored_of h4 (deref h4 s)) (deref h4 scored))"
proof -
  define fs where "fs = filter (filterByWeight_h cap h4) (deref h4 scored)"
  have fl: "filtered = Ref (Suc r4)" and h5: "h5 = h4 @ [fs]"
    using run by (simp_all add: array_filter_h_def alloc_def fs_def len)
  have len5: "length h5 = Suc (Suc r4)" by (simp add: h5 len)
  have d5: "deref h5 filtered = fs" by (simp add: fl h5 len nth_append)
  have same: "deref h5 v = deref h4 v" if "ref_below (Suc r4) v" for v
    using that by (auto simp: ref_below_def h5 len nth_append)
  have sub: "set fs \<subseteq> set (deref h4 scored)" by (auto simp: fs_def)
  have eq: "scored_of h5 (deref h5 s) = scored_of h4 (deref h4 s)"
    if s: "s \<in> set (deref h4 scored)" for s
  proof -
    have ds: "deref h5 s = deref h4 s" by (rule same) (use inv s in \<open>auto simp: ref_below_def\<close>)
    have "scored_of h5 (deref h4 s) = scored_of h4 (deref h4 s)"
    proof (rule scored_of_cong)
      fix v assume "v \<in> set (drop 2 (deref h4 s))"
      then have "ref_below r1 v" using inv s by blast
      then have "ref_below (Suc r4) v" using b by (auto simp: ref_below_def)
      then show "deref h5 v = deref h4 v" by (rule same)
    qed
    then show ?thesis by (simp only: ds)
  qed
  have inv5: "\<forall>s\<in>set fs. ref_below r4 s \<and> (\<forall>v\<in>set (drop 2 (deref h5 s)). ref_below r1 v)"
  proof
    fix s assume "s \<in> set fs"
    then have s: "s \<in> set (deref h4 scored)" using sub by blast
    have "deref h5 s = deref h4 s" by (rule same) (use inv s in \<open>auto simp: ref_below_def\<close>)
    then show "ref_below r4 s \<and> (\<forall>v\<in>set (drop 2 (deref h5 s)). ref_below r1 v)"
      using inv s by simp
  qed
  have "map (\<lambda>s. scored_of h5 (deref h5 s)) fs = map (\<lambda>s. scored_of h4 (deref h4 s)) fs"
    by (rule map_cong) (use eq sub in auto)
  also have "\<dots> = filter (filterByWeight cap)
                     (map (\<lambda>s. scored_of h4 (deref h4 s)) (deref h4 scored))"
  proof -
    have fe: "filterByWeight_h cap h4 = (\<lambda>s. filterByWeight cap (scored_of h4 (deref h4 s)))"
      by (rule ext) (rule filterByWeight_h_reads)
    show ?thesis by (simp add: fs_def fe filter_map comp_def)
  qed
  finally show ?thesis using fl len5 inv5 d5 by simp
qed

lemma sort_scored_h:
  assumes fl: "filtered = Ref r5" and len: "length h5 = Suc r5"
    and b: "Suc r1 \<le> r4" "r4 < r5"
    and inv: "\<forall>s\<in>set (deref h5 filtered).
                ref_below r4 s \<and> (\<forall>v\<in>set (drop 2 (deref h5 s)). ref_below r1 v)"
    and run: "array_sort_h sortByTotalBenefit_h filtered h5 = (results, h6)"
  shows "results = Ref r5 \<and> length h6 = Suc r5
         \<and> (\<forall>s\<in>set (deref h6 results).
               ref_below r4 s \<and> (\<forall>v\<in>set (drop 2 (deref h6 s)). ref_below r1 v))
         \<and> map (\<lambda>s. scored_of h6 (deref h6 s)) (deref h6 results)
             = array_sort sortByTotalBenefit
                 (map (\<lambda>s. scored_of h5 (deref h5 s)) (deref h5 filtered))"
proof -
  define sfs where "sfs = array_sort (sortByTotalBenefit_h h5) (deref h5 filtered)"
  have rs: "results = Ref r5" and h6: "h6 = h5[r5 := sfs]"
    using run unfolding fl sfs_def by auto
  have len6: "length h6 = Suc r5" by (simp add: h6 len)
  have d6: "deref h6 results = sfs" by (simp add: rs h6 len)
  have same: "deref h6 v = deref h5 v" if "ref_below r5 v" for v
    using that by (auto simp: ref_below_def h6)
  have sub: "set sfs = set (deref h5 filtered)" by (simp add: sfs_def set_array_sort)
  have eq: "scored_of h6 (deref h6 s) = scored_of h5 (deref h5 s)"
    if s: "s \<in> set (deref h5 filtered)" for s
  proof -
    have ds: "deref h6 s = deref h5 s"
      by (rule same) (use inv s b in \<open>auto simp: ref_below_def\<close>)
    have "scored_of h6 (deref h5 s) = scored_of h5 (deref h5 s)"
    proof (rule scored_of_cong)
      fix v assume "v \<in> set (drop 2 (deref h5 s))"
      then have "ref_below r1 v" using inv s by blast
      then have "ref_below r5 v" using b by (auto simp: ref_below_def)
      then show "deref h6 v = deref h5 v" by (rule same)
    qed
    then show ?thesis by (simp only: ds)
  qed
  have inv6: "\<forall>s\<in>set sfs. ref_below r4 s \<and> (\<forall>v\<in>set (drop 2 (deref h6 s)). ref_below r1 v)"
  proof
    fix s assume "s \<in> set sfs"
    then have s: "s \<in> set (deref h5 filtered)" using sub by blast
    have "deref h6 s = deref h5 s"
      by (rule same) (use inv s b in \<open>auto simp: ref_below_def\<close>)
    then show "ref_below r4 s \<and> (\<forall>v\<in>set (drop 2 (deref h6 s)). ref_below r1 v)"
      using inv s by simp
  qed
  have "map (\<lambda>s. scored_of h6 (deref h6 s)) sfs = map (\<lambda>s. scored_of h5 (deref h5 s)) sfs"
    by (rule map_cong) (use eq sub in auto)
  also have "\<dots> = array_sort sortByTotalBenefit
                     (map (\<lambda>s. scored_of h5 (deref h5 s)) (deref h5 filtered))"
    unfolding sfs_def by (rule array_sort_map) (rule sortByTotalBenefit_h_reads)
  finally show ?thesis using rs len6 inv6 d6 by simp
qed

lemma slot_drop: "slot (drop k a) i = slot a (k + i)"
  by (auto simp: slot_def)

lemma item_of_drop: "item_of (drop (Suc 0) a) = snd (annotated_of a)"
  by (simp add: item_of_def annotated_of_def slot_drop numeral_2_eq_2)

lemma winner_h:
  assumes len: "length h6 = Suc r5" and b: "Suc r1 \<le> r4" "r4 < r5"
    and s0: "ref_below r4 s0" and anns: "\<forall>v\<in>set (drop 2 (deref h6 s0)). ref_below r1 v"
    and run7: "slice_h 2 s0 h6 = (sliced, h7)"
    and run8: "array_map_h (slice_h 1) sliced h7 = (winner, h8)"
  shows "read_items h8 winner = map snd (snd (snd (scored_of h6 (deref h6 s0))))"
proof -
  define as where "as = drop 2 (deref h6 s0)"
  have sl: "sliced = Ref (Suc r5)" and h7: "h7 = h6 @ [as]"
    using run7 by (simp_all add: slice_h_def alloc_def as_def len)
  have len7: "length h7 = Suc (Suc r5)" by (simp add: h7 len)
  have d7: "deref h7 sliced = as" by (simp add: sl h7 len nth_append)
  have same: "deref h7 v = deref h6 v" if "ref_below r1 v" for v
    using that b by (auto simp: ref_below_def h7 len nth_append)
  have below: "\<forall>v\<in>set as. ref_below r1 v" using anns by (simp add: as_def)
  define g where "g = (\<lambda>h v. drop (Suc 0) (deref h v))"
  have f: "slice_h 1 v h = (Ref (length h), h @ [g h v])" for v h
    by (simp add: slice_h_def alloc_def g_def)
  have st: "g (h7 @ zs) v = g h7 v" if "v \<in> set (deref h7 sliced)" for v zs
  proof -
    have "ref_below r1 v" using that below d7 by simp
    then have "ref_below (length h7) v" using b len7 by (auto simp: ref_below_def)
    then show ?thesis by (simp add: g_def deref_append)
  qed
  have rb: "ref_below (length h7) sliced" by (simp add: sl len7 ref_below_def)
  note facts = array_map_h_reads [where g = g, OF f st rb run8]
  have m: "map (deref h8) (deref h8 winner) = map (g h7) as"
    using facts(4) d7 by simp
  have "read_items h8 winner = map item_of (map (deref h8) (deref h8 winner))"
    by (simp add: read_items_item_of comp_def)
  also have "\<dots> = map item_of (map (g h7) as)" by (simp only: m)
  also have "\<dots> = map (\<lambda>v. snd (annotated_of (deref h7 v))) as"
    by (simp add: comp_def g_def item_of_drop)
  also have "\<dots> = map (\<lambda>v. snd (annotated_of (deref h6 v))) as"
    by (rule map_cong) (use below same in auto)
  also have "\<dots> = map snd (snd (snd (scored_of h6 (deref h6 s0))))"
    by (simp add: scored_of_def as_def comp_def)
  finally show ?thesis .
qed

text \<open>
  The program over the store returns what the functional model returns on the
  collection read from the store.
\<close>

lemma knapsack_h_refines:
  assumes wf: "wf_items h items"
    and run: "knapsack_h items maximumWeight h = Some (outcome, h')"
  shows "case outcome of
           Inl e \<Rightarrow> knapsack (read_items h items) maximumWeight = Inl e
         | Inr winner \<Rightarrow>
             knapsack (read_items h items) maximumWeight = Inr (read_items h' winner)"
proof -
  let ?its = "read_items h items"
  obtain annotated h1 where s1: "array_map_h calculateBenefit_h items h = (annotated, h1)"
    by (cases "array_map_h calculateBenefit_h items h")
  from annotate_h [OF wf s1] obtain r1 where a1: "annotated = Ref r1"
    and l1: "length h1 = Suc r1"
    and b1: "\<forall>v\<in>set (deref h1 annotated). ref_below r1 v"
    and m1: "map (\<lambda>v. annotated_of (deref h1 v)) (deref h1 annotated)
               = map calculateBenefit ?its"
    by blast
  obtain srt h2 where s2: "array_sort_h sortByBenefit_h annotated h1 = (srt, h2)"
    by (cases "array_sort_h sortByBenefit_h annotated h1")
  have a2: "srt = Ref r1" and l2: "length h2 = Suc r1"
    and b2: "\<forall>v\<in>set (deref h2 srt). ref_below r1 v"
    and m2: "map (\<lambda>v. annotated_of (deref h2 v)) (deref h2 srt) = ranked ?its"
    using sort_annotated_h [OF a1 l1 b1 s2] unfolding m1 ranked_def by blast+
  obtain r3 h3 where s3: "sortedCombinations_h srt h2 = Some (Ref r3, h3)"
    using sortedCombinations_h_unchanged [of srt h2] by blast
  have c3: "ref_below (length h3) (Ref r3)" and l3: "Suc r1 \<le> length h3"
    and b3: "\<forall>c\<in>set (deref h3 (Ref r3)).
               ref_below (length h3) c \<and> (\<forall>v\<in>set (deref h3 c). ref_below r1 v)"
    and m3: "map (\<lambda>c. map (\<lambda>v. annotated_of (deref h3 v)) (deref h3 c)) (deref h3 (Ref r3))
               = knapsack_combinations ?its"
    using combinations_h [OF a2 l2 b2 s3] unfolding m2 knapsack_combinations_def by blast+
  obtain scored h4 where s4: "array_map_h calculateTotalBenefit_h (Ref r3) h3 = (scored, h4)"
    by (cases "array_map_h calculateTotalBenefit_h (Ref r3) h3")
  obtain r4 where a4: "scored = Ref r4"
    and l4: "length h4 = Suc r4" and o4: "Suc r1 \<le> r4"
    and b4: "\<forall>s\<in>set (deref h4 scored).
               ref_below r4 s \<and> (\<forall>v\<in>set (drop 2 (deref h4 s)). ref_below r1 v)"
    and m4: "map (\<lambda>s. scored_of h4 (deref h4 s)) (deref h4 scored)
               = map calculateTotalBenefit (knapsack_combinations ?its)"
    using score_h [OF c3 l3 b3 s4] unfolding m3 by blast
  obtain filtered h5 where
    s5: "array_filter_h (filterByWeight_h maximumWeight) scored h4 = (filtered, h5)"
    by (cases "array_filter_h (filterByWeight_h maximumWeight) scored h4")
  have a5: "filtered = Ref (Suc r4)" and l5: "length h5 = Suc (Suc r4)"
    and b5: "\<forall>s\<in>set (deref h5 filtered).
               ref_below r4 s \<and> (\<forall>v\<in>set (drop 2 (deref h5 s)). ref_below r1 v)"
    and m5: "map (\<lambda>s. scored_of h5 (deref h5 s)) (deref h5 filtered)
               = candidates ?its maximumWeight"
    using filter_h [OF a4 l4 o4 b4 s5] unfolding m4 candidates_def by blast+
  obtain results h6 where s6: "array_sort_h sortByTotalBenefit_h filtered h5 = (results, h6)"
    by (cases "array_sort_h sortByTotalBenefit_h filtered h5")
  have o5: "r4 < Suc r4" by simp
  have a6: "results = Ref (Suc r4)" and l6: "length h6 = Suc (Suc r4)"
    and b6: "\<forall>s\<in>set (deref h6 results).
               ref_below r4 s \<and> (\<forall>v\<in>set (drop 2 (deref h6 s)). ref_below r1 v)"
    and m6: "map (\<lambda>s. scored_of h6 (deref h6 s)) (deref h6 results)
               = knapsack_results ?its maximumWeight"
    using sort_scored_h [OF a5 l5 o4 o5 b5 s6] unfolding m5 knapsack_results_def by blast+
  show ?thesis
  proof (cases "deref h6 results")
    case Nil
    then have "slot (deref h6 results) 0 = Undefined" by (simp add: slot_def)
    then have "knapsack_h items maximumWeight h = Some (Inl TypeError, h6)"
      using s1 s2 s3 s4 s5 s6 by (simp add: knapsack_h_def)
    then have o: "outcome = Inl TypeError" using run by simp
    have "knapsack_results ?its maximumWeight = []" using m6 Nil by simp
    then have "knapsack ?its maximumWeight = Inl TypeError" by (simp add: knapsack_def)
    then show ?thesis by (simp add: o)
  next
    case (Cons s0 rest)
    have s0: "ref_below r4 s0"
      and anns: "\<forall>v\<in>set (drop 2 (deref h6 s0)). ref_below r1 v"
      using b6 Cons by simp_all
    obtain r0 where r0: "s0 = Ref r0" using s0 by (auto simp: ref_below_def)
    have sl: "slot (deref h6 results) 0 = Ref r0" using Cons r0 by (simp add: slot_def)
    obtain sliced h7 where s7: "slice_h 2 s0 h6 = (sliced, h7)"
      by (cases "slice_h 2 s0 h6")
    obtain winner h8 where s8: "array_map_h (slice_h 1) sliced h7 = (winner, h8)"
      by (cases "array_map_h (slice_h 1) sliced h7")
    have "knapsack_h items maximumWeight h = Some (Inr winner, h8)"
      using s1 s2 s3 s4 s5 s6 s7 s8 sl r0 by (simp add: knapsack_h_def)
    then have o: "outcome = Inr winner" "h' = h8" using run by simp_all
    have w: "read_items h8 winner = map snd (snd (snd (scored_of h6 (deref h6 s0))))"
      by (rule winner_h [OF l6 o4 o5 s0 anns s7 s8])
    have "knapsack_results ?its maximumWeight
        = scored_of h6 (deref h6 s0) # map (\<lambda>s. scored_of h6 (deref h6 s)) rest"
      using m6 Cons by simp
    then have "knapsack ?its maximumWeight
        = Inr (map snd (snd (snd (scored_of h6 (deref h6 s0)))))"
      by (simp add: knapsack_def)
    then show ?thesis by (simp add: o w)
  qed
qed

lemma store_items_spec:
  assumes "store_items its h = (rs, h')"
  shows "h' = h @ map (\<lambda>(w, b). [Num w, Num b]) its
         \<and> rs = map Ref [length h..<length h + length its]"
  using assms
proof (induction its arbitrary: h rs h')
  case Nil
  then show ?case by simp
next
  case (Cons it its)
  obtain w b where it: "it = (w, b)" by (cases it)
  obtain rs1 h1 where r: "store_items its (h @ [[Num w, Num b]]) = (rs1, h1)"
    by (cases "store_items its (h @ [[Num w, Num b]])")
  have e: "rs = Ref (length h) # rs1" "h' = h1"
    using Cons.prems r by (simp_all add: it alloc_def)
  from Cons.IH [OF r] have "h1 = (h @ [[Num w, Num b]]) @ map (\<lambda>(w, b). [Num w, Num b]) its"
    and "rs1 = map Ref [Suc (length h)..<Suc (length h) + length its]"
    by simp_all
  then show ?case using e by (simp add: it upt_rec)
qed

lemma caller_heap_spec:
  assumes "caller_heap its = (items, h)"
  shows "wf_items h items" and "read_items h items = its"
proof -
  let ?n = "length its"
  let ?arrs = "map (\<lambda>(w, b). [Num w, Num b]) its"
  have "store_items its [] = (map Ref [0..<?n], ?arrs)"
    using store_items_spec [of its "[]"] by (cases "store_items its []") simp
  then have i: "items = Ref ?n" and h: "h = ?arrs @ [map Ref [0..<?n]]"
    using assms by (simp_all add: caller_heap_def alloc_def)
  have pair: "is_pair h (Ref k)" if "k < ?n" for k
    using that by (simp add: h nth_append split: prod.splits)
  show "wf_items h items"
    unfolding i using pair by (simp add: h nth_append list_all_iff)
  have "item_of (deref h (Ref k)) = its ! k" if "k < ?n" for k
    using that by (simp add: h nth_append item_of_def slot_def split: prod.splits)
  then have "map (\<lambda>v. item_of (deref h v)) (map Ref [0..<?n]) = map ((!) its) [0..<?n]"
    by (simp add: comp_def)
  then show "read_items h items = its"
    unfolding read_items_item_of i by (simp add: h nth_append map_nth)
qed

text \<open>For every literal collection a caller stores, the two models agree.\<close>

lemma run_knapsack_refines: "run_knapsack its maximumWeight = Some (knapsack its maximumWeight)"
proof -
  obtain items h where c: "caller_heap its = (items, h)" by (cases "caller_heap its")
  note wf = caller_heap_spec [OF c]
  obtain outcome h' where k: "knapsack_h items maximumWeight h = Some (outcome, h')"
    using knapsack_h_unchanged by blast
  from knapsack_h_refines [OF wf(1) k] show ?thesis
    using c k wf(2) by (cases outcome) (simp_all add: run_knapsack_def)
qed

section \<open>No mutation of the argument\<close>

text \<open>
  C10. \<open>knapsack\<close> does not mutate its argument. Called on a well-formed argument in
  any store, it returns (a selection or the \<^verbatim>\<open>TypeError\<close>, the same as the functional
  model on the collection read from the store), and every array that existed before
  the call is unchanged in the store it leaves: the caller's array has the same
  elements in the same order, each pair it refers to holds the same numbers, and
  the collection read back is the same. The two in-place sorts and the pushes write
  only arrays allocated during the call.
\<close>

theorem knapsack_h_frame:
  assumes wf: "wf_items h items"
  shows "\<exists>outcome h'. knapsack_h items maximumWeight h = Some (outcome, h')
           \<and> take (length h) h' = h
           \<and> deref h' items = deref h items
           \<and> (\<forall>v\<in>set (deref h items). deref h' v = deref h v)
           \<and> read_items h' items = read_items h items
           \<and> (case outcome of
                 Inl e \<Rightarrow> knapsack (read_items h items) maximumWeight = Inl e
               | Inr winner \<Rightarrow>
                   knapsack (read_items h items) maximumWeight = Inr (read_items h' winner))"
proof -
  obtain outcome h' where k: "knapsack_h items maximumWeight h = Some (outcome, h')"
    and u: "unchanged_below (length h) h h'"
    using knapsack_h_unchanged by blast
  have "take (length h) h' = h"
    using u by (auto simp: unchanged_below_def list_eq_iff_nth_eq)
  then show ?thesis
    using k wf_items_unchanged [OF wf u] knapsack_h_refines [OF wf k] by blast
qed

lemma caller_example_eq:
  "caller_example
     = (Ref 2, [[Num (Fin 1), Num (Fin 1)], [Num (Fin 3), Num (Fin 5)], [Ref 0, Ref 1]])"
  by (simp add: caller_example_def caller_heap_def alloc_def)

theorem knapsack_h_frame_witness:
  "wf_items (snd caller_example) (fst caller_example)
   \<and> read_items (snd caller_example) (fst caller_example) = [(Fin 1, Fin 1), (Fin 3, Fin 5)]
   \<and> (\<exists>outcome h'. knapsack_h (fst caller_example) None (snd caller_example) = Some (outcome, h')
         \<and> take 3 h' = snd caller_example
         \<and> read_items h' (fst caller_example) = [(Fin 1, Fin 1), (Fin 3, Fin 5)])"
proof -
  have wf: "wf_items (snd caller_example) (fst caller_example)"
    by (simp add: caller_example_eq)
  have rd: "read_items (snd caller_example) (fst caller_example)
      = [(Fin 1, Fin 1), (Fin 3, Fin 5)]"
    by (simp add: caller_example_eq read_items_def slot_def)
  have len: "length (snd caller_example) = 3" by (simp add: caller_example_eq)
  from knapsack_h_frame [OF wf, of None]
  obtain outcome h' where
    "knapsack_h (fst caller_example) None (snd caller_example) = Some (outcome, h')"
    "take (length (snd caller_example)) h' = snd caller_example"
    "read_items h' (fst caller_example) = read_items (snd caller_example) (fst caller_example)"
    by blast
  then have "\<exists>outcome h'. knapsack_h (fst caller_example) None (snd caller_example)
                = Some (outcome, h')
         \<and> take 3 h' = snd caller_example
         \<and> read_items h' (fst caller_example) = [(Fin 1, Fin 1), (Fin 3, Fin 5)]"
    unfolding len rd by blast
  then show ?thesis using wf rd by blast
qed

end
